theory Spec2Isabelle
  imports Main "HOL-Library.Word" "HOL-Library.AList"
begin

section \<open>JavaScript strings\<close>

text \<open>
  A JavaScript string is a sequence of UTF-16 code units. The byte-order mark that
  \<^verbatim>\<open>stripBOM\<close> removes is the single code unit \<open>0xFEFF\<close>, and \<^verbatim>\<open>JSON.parse\<close> can
  produce any code unit through \<^verbatim>\<open>\uXXXX\<close>, so the model keeps 16-bit units.
  \<open>js\<close> writes an ASCII literal as such a string.
\<close>

type_synonym jschar = "16 word"
type_synonym jsstring = "jschar list"

definition js :: "string \<Rightarrow> jsstring" where
  "js s = map of_char s"

abbreviation NL :: jschar where "NL \<equiv> 0x0A"        \<comment> \<open>line feed\<close>
abbreviation SP :: jschar where "SP \<equiv> 0x20"        \<comment> \<open>space\<close>
abbreviation DQ :: jschar where "DQ \<equiv> 0x22"        \<comment> \<open>double quote\<close>
abbreviation HASH :: jschar where "HASH \<equiv> 0x23"    \<comment> \<open>\<^verbatim>\<open>#\<close>\<close>
abbreviation COMMA_C :: jschar where "COMMA_C \<equiv> 0x2C"
abbreviation COLON_C :: jschar where "COLON_C \<equiv> 0x3A"
abbreviation BS :: jschar where "BS \<equiv> 0x5C"        \<comment> \<open>backslash\<close>
abbreviation BOM :: jschar where "BOM \<equiv> 0xFEFF"

text \<open>\<^verbatim>\<open>input[i]\<close>: \<open>None\<close> is \<^verbatim>\<open>undefined\<close>, what an index outside the string reads.\<close>

definition char_at :: "jsstring \<Rightarrow> nat \<Rightarrow> jschar option" where
  "char_at s i = (if i < length s then Some (s ! i) else None)"

text \<open>\<^verbatim>\<open>val += input[i]\<close>: appending \<^verbatim>\<open>undefined\<close> appends the nine letters of its name.\<close>

definition append_char :: "jsstring \<Rightarrow> jschar option \<Rightarrow> jsstring" where
  "append_char val c = (case c of Some x \<Rightarrow> val @ [x] | None \<Rightarrow> val @ js ''undefined'')"

text \<open>\<^verbatim>\<open>/^[0-9]/\<close> on one code unit.\<close>

definition is_digit :: "jschar \<Rightarrow> bool" where
  "is_digit c = (0x30 \<le> c \<and> c \<le> 0x39)"

text \<open>\<^verbatim>\<open>/^[a-zA-Z\/-]/\<close> on one code unit.\<close>

definition is_name_start :: "jschar \<Rightarrow> bool" where
  "is_name_start c =
     ((0x61 \<le> c \<and> c \<le> 0x7A) \<or> (0x41 \<le> c \<and> c \<le> 0x5A) \<or> c = 0x2F \<or> c = 0x2D)"

text \<open>The characters at which the bare-word loop breaks: colon, space, newline, comma.\<close>

definition is_name_end :: "jschar \<Rightarrow> bool" where
  "is_name_end c = (c = COLON_C \<or> c = SP \<or> c = NL \<or> c = COMMA_C)"

text \<open>\<^verbatim>\<open>/^true/.test(input)\<close> and \<^verbatim>\<open>/^false/.test(input)\<close>.\<close>

definition starts_with :: "jsstring \<Rightarrow> jsstring \<Rightarrow> bool" where
  "starts_with p s = (take (length p) s = p)"

text \<open>
  \<^verbatim>\<open>+val\<close> on a run of decimal digits. JavaScript keeps the value as a double, which is
  this integer exactly below \<open>2^53\<close>; for a longer run the engine rounds, and the model
  keeps the integer. No decision of the program depends on the difference.
\<close>

definition digit_val :: "jschar \<Rightarrow> nat" where
  "digit_val c = unat c - 48"

definition number_of :: "jsstring \<Rightarrow> nat" where
  "number_of ds = foldl (\<lambda>n c. 10 * n + digit_val c) 0 ds"

text \<open>A count printed inside a template string (\<^verbatim>\<open>${line}\<close>): its decimal digits.\<close>

fun dec :: "nat \<Rightarrow> jsstring" where
  "dec n = (if n < 10 then [of_nat (48 + n)] else dec (n div 10) @ [of_nat (48 + n mod 10)])"

declare dec.simps [simp del]

text \<open>
  \<^verbatim>\<open>String.prototype.trim\<close>: strips the white space and line terminators of ECMAScript
  from both ends.
\<close>

definition is_ws :: "jschar \<Rightarrow> bool" where
  "is_ws c = (c \<in> {0x09, 0x0A, 0x0B, 0x0C, 0x0D, 0x20, 0xA0, 0x1680, 0x2028, 0x2029,
                    0x202F, 0x205F, 0x3000, 0xFEFF} \<or> (0x2000 \<le> c \<and> c \<le> 0x200A))"

definition trim :: "jsstring \<Rightarrow> jsstring" where
  "trim s = rev (dropWhile is_ws (rev (dropWhile is_ws s)))"

subsection \<open>\<^verbatim>\<open>JSON.parse\<close> on a quoted literal\<close>

text \<open>
  The scanner hands \<^verbatim>\<open>JSON.parse\<close> only texts that begin with a double quote, so the
  model is the string production of the JSON grammar: any code unit from \<open>0x20\<close> on
  except quote and backslash stands for itself, a backslash starts one of the escapes
  \<^verbatim>\<open>\" \\ \/ \b \f \n \r \t \uXXXX\<close>, and after the closing quote only JSON white space
  may follow. \<open>None\<close> is the \<^verbatim>\<open>SyntaxError\<close> that \<^verbatim>\<open>JSON.parse\<close> throws.
\<close>

definition hex_val :: "jschar \<Rightarrow> nat option" where
  "hex_val c =
     (if 0x30 \<le> c \<and> c \<le> 0x39 then Some (unat c - 48)
      else if 0x41 \<le> c \<and> c \<le> 0x46 then Some (unat c - 55)
      else if 0x61 \<le> c \<and> c \<le> 0x66 then Some (unat c - 87)
      else None)"

definition json_escape :: "jschar \<Rightarrow> jschar option" where
  "json_escape e =
     (if e = DQ then Some DQ
      else if e = BS then Some BS
      else if e = 0x2F then Some 0x2F
      else if e = 0x62 then Some 0x08
      else if e = 0x66 then Some 0x0C
      else if e = 0x6E then Some 0x0A
      else if e = 0x72 then Some 0x0D
      else if e = 0x74 then Some 0x09
      else None)"

definition json_unicode :: "jsstring \<Rightarrow> jschar option" where
  "json_unicode hs =
     (case map hex_val hs of
        [Some a, Some b, Some c, Some d] \<Rightarrow> Some (of_nat (((a * 16 + b) * 16 + c) * 16 + d))
      | _ \<Rightarrow> None)"

text \<open>The characters after the opening quote: the decoded string and what follows the
  closing quote.\<close>

function json_chars :: "jsstring \<Rightarrow> (jsstring \<times> jsstring) option" where
  "json_chars [] = None"
| "json_chars (c # cs) =
     (if c = DQ then Some ([], cs)
      else if c = BS then
        (case cs of
           [] \<Rightarrow> None
         | e # es \<Rightarrow>
             if e = 0x75 then
               (case json_unicode (take 4 es) of
                  None \<Rightarrow> None
                | Some u \<Rightarrow> map_option (\<lambda>(d, r). (u # d, r)) (json_chars (drop 4 es)))
             else
               (case json_escape e of
                  None \<Rightarrow> None
                | Some x \<Rightarrow> map_option (\<lambda>(d, r). (x # d, r)) (json_chars es)))
      else if c < 0x20 then None
      else map_option (\<lambda>(d, r). (c # d, r)) (json_chars cs))"
  by pat_completeness auto
termination
  by (relation "measure length") auto

definition json_ws :: "jschar \<Rightarrow> bool" where
  "json_ws c = (c = 0x09 \<or> c = 0x0A \<or> c = 0x0D \<or> c = 0x20)"

definition json_parse :: "jsstring \<Rightarrow> jsstring option" where
  "json_parse val =
     (case val of
        [] \<Rightarrow> None
      | q # cs \<Rightarrow>
          if q = DQ then
            (case json_chars cs of
               None \<Rightarrow> None
             | Some (d, r) \<Rightarrow> if list_all json_ws r then Some d else None)
          else None)"

section \<open>Tokens and errors\<close>

datatype token_type =
  BOOLEAN | STRING | IDENTIFIER | EOF | COLON | NEWLINE | COMMENT | INDENT | INVALID | NUMBER
  | COMMA

text \<open>A token's value: \<^verbatim>\<open>boolean | number | string | void\<close>.\<close>

datatype tvalue = VUndefined | VBool bool | VNum nat | VStr jsstring

record token =
  t_line :: nat
  t_col :: nat
  t_type :: token_type
  t_value :: tvalue

text \<open>
  What the program throws: the \<^verbatim>\<open>TypeError\<close> of the scanner ("Invalid number of spaces"),
  the \<^verbatim>\<open>SyntaxError\<close> of \<^verbatim>\<open>unexpected\<close>, the \<^verbatim>\<open>Error\<close> of \<^verbatim>\<open>next\<close> ("No more tokens"),
  the error of a failed \<^verbatim>\<open>invariant\<close>, and the bare string that \<^verbatim>\<open>onComment\<close> throws.
\<close>

datatype error =
  TypeError jsstring
  | SyntaxError jsstring
  | Error jsstring
  | InvariantViolation jsstring
  | ThrownString jsstring

text \<open>
  A computation that may throw and may fail to return: \<open>None\<close> is a call that never
  returns, \<open>Some (Inl e)\<close> one that throws \<open>e\<close>. \<open>then_do\<close> sequences two of them.
\<close>

type_synonym 'a outcome = "(error + 'a) option"

definition then_do :: "'a outcome \<Rightarrow> ('a \<Rightarrow> 'b outcome) \<Rightarrow> 'b outcome" where
  "then_do m f = (case m of None \<Rightarrow> None | Some (Inl e) \<Rightarrow> Some (Inl e) | Some (Inr x) \<Rightarrow> f x)"

lemma then_do_simps [simp]:
  "then_do None f = None"
  "then_do (Some (Inl e)) f = Some (Inl e)"
  "then_do (Some (Inr x)) f = f x"
  by (simp_all add: then_do_def)

lemma then_do_mono [partial_function_mono]:
  assumes "mono_option B" and "\<And>y. mono_option (\<lambda>f. C y f)"
  shows "mono_option (\<lambda>f. then_do (B f) (\<lambda>y. C y f))"
proof -
  have eq: "\<And>f. then_do (B f) (\<lambda>y. C y f) =
      Option.bind (B f) (\<lambda>r. case r of Inl e \<Rightarrow> Some (Inl e) | Inr x \<Rightarrow> C x f)"
    by (simp add: then_do_def split: option.splits sum.splits)
  have inner: "mono_option (\<lambda>f. case r of Inl e \<Rightarrow> Some (Inl e) | Inr x \<Rightarrow> C x f)" for r
    by (cases r) (simp_all add: assms(2) option.const_mono)
  have "mono_option (\<lambda>f. Option.bind (B f)
      (\<lambda>r. case r of Inl e \<Rightarrow> Some (Inl e) | Inr x \<Rightarrow> C x f))"
    by (rule bind_mono [OF assms(1) inner])
  then show ?thesis by (simp only: eq)
qed

section \<open>The scanner: \<^verbatim>\<open>tokenise\<close>\<close>

text \<open>The variables the generator closes over.\<close>

record scanner =
  input :: jsstring
  lastNewline :: bool
  line :: nat
  col :: nat

definition buildToken :: "scanner \<Rightarrow> token_type \<Rightarrow> tvalue \<Rightarrow> token" where
  "buildToken s ty v = \<lparr>t_line = line s, t_col = col s, t_type = ty, t_value = v\<rparr>"

text \<open>
  The comment loop \<^verbatim>\<open>while (input[chop] !== "\n") { val += input[chop]; chop++; }\<close>.
  Past the end of the text \<^verbatim>\<open>input[chop]\<close> is \<^verbatim>\<open>undefined\<close>, which is not a newline, so
  the loop goes on.
\<close>

partial_function (option) comment_loop :: "jsstring \<Rightarrow> nat \<Rightarrow> jsstring \<Rightarrow> (jsstring \<times> nat) option"
  where
  "comment_loop inp chop val =
     (if char_at inp chop = Some NL then Some (val, chop)
      else comment_loop inp (chop + 1) (append_char val (char_at inp chop)))"

declare comment_loop.simps [code]

text \<open>
  The quoted-string loop \<^verbatim>\<open>for (let i = 0; ; i++)\<close>. It stops at a quote at \<open>i > 0\<close>
  that is not escaped, where escaped means \<^verbatim>\<open>input[i - 1] === "\\" && input[i - 2] !== "\\"\<close>
  (\<^verbatim>\<open>input[-1]\<close> is \<^verbatim>\<open>undefined\<close>, written out for \<open>i = 1\<close>).
\<close>

definition isEscaped :: "jsstring \<Rightarrow> nat \<Rightarrow> bool" where
  "isEscaped inp i =
     (char_at inp (i - 1) = Some BS \<and> \<not> (2 \<le> i \<and> char_at inp (i - 2) = Some BS))"

partial_function (option) quote_loop :: "jsstring \<Rightarrow> nat \<Rightarrow> jsstring \<Rightarrow> jsstring option"
  where
  "quote_loop inp i val =
     (if 0 < i \<and> char_at inp i = Some DQ \<and> \<not> isEscaped inp i
      then Some (append_char val (char_at inp i))
      else quote_loop inp (i + 1) (append_char val (char_at inp i)))"

declare quote_loop.simps [code]

text \<open>
  The end of one pass of \<^verbatim>\<open>while (input.length)\<close>: the guard on \<open>chop\<close>, which yields one
  more \<open>INVALID\<close> token, then \<^verbatim>\<open>col += chop\<close>, \<^verbatim>\<open>lastNewline = input[0] === "\n"\<close> and
  \<^verbatim>\<open>input = input.slice(chop)\<close>. \<open>yielded\<close> are the tokens the pass has yielded before.
\<close>

definition advance :: "scanner \<Rightarrow> nat \<Rightarrow> token list \<Rightarrow> token list \<times> scanner" where
  "advance s chop yielded =
     (yielded @ (if chop = 0 then [buildToken s INVALID VUndefined] else []),
      s\<lparr>input := drop chop (input s),
        lastNewline := (char_at (input s) 0 = Some NL),
        col := col s + chop\<rparr>)"

text \<open>
  One pass of the loop body: the tokens it yields, in order, and the variables after it;
  or the \<^verbatim>\<open>TypeError\<close> it throws; or \<open>None\<close> when one of its inner loops never ends.
  A throw and an endless inner loop both come before the pass yields anything.
\<close>

definition tokenise_step :: "scanner \<Rightarrow> (token list \<times> scanner) outcome" where
  "tokenise_step s =
     (let inp = input s in
      if char_at inp 0 = Some NL then
        (let s1 = s\<lparr>line := line s + 1, col := 0\<rparr>
         in Some (Inr (advance s1 1 [buildToken s1 NEWLINE VUndefined])))
      else if char_at inp 0 = Some HASH then
        (case comment_loop inp 1 [] of
           None \<Rightarrow> None
         | Some (val, chop) \<Rightarrow> Some (Inr (advance s chop [buildToken s COMMENT (VStr val)])))
      else if char_at inp 0 = Some SP then
        (if lastNewline s then
           (let indent = takeWhile (\<lambda>c. c = SP) inp
            in if odd (length indent) then Some (Inl (TypeError (js ''Invalid number of spaces'')))
               else Some (Inr (advance s (length indent)
                      [buildToken s INDENT (VNum (length indent div 2))])))
         else Some (Inr (advance s 1 [])))
      else if char_at inp 0 = Some DQ then
        (case quote_loop inp 0 [] of
           None \<Rightarrow> None
         | Some val \<Rightarrow>
             (case json_parse val of
                Some str \<Rightarrow> Some (Inr (advance s (length val) [buildToken s STRING (VStr str)]))
              | None \<Rightarrow> Some (Inr (advance s (length val) [buildToken s INVALID VUndefined]))))
      else if list_all is_digit (take 1 inp) then
        (let val = takeWhile is_digit inp
         in Some (Inr (advance s (length val) [buildToken s NUMBER (VNum (number_of val))])))
      else if starts_with (js ''true'') inp then
        Some (Inr (advance s 4 [buildToken s BOOLEAN (VBool True)]))
      else if starts_with (js ''false'') inp then
        Some (Inr (advance s 5 [buildToken s BOOLEAN (VBool False)]))
      else if char_at inp 0 = Some COLON_C then
        Some (Inr (advance s 1 [buildToken s COLON VUndefined]))
      else if char_at inp 0 = Some COMMA_C then
        Some (Inr (advance s 1 [buildToken s COMMA VUndefined]))
      else if list_all is_name_start (take 1 inp) then
        (let name = takeWhile (\<lambda>c. \<not> is_name_end c) inp
         in Some (Inr (advance s (length name) [buildToken s STRING (VStr name)])))
      else Some (Inr (advance s 0 [buildToken s INVALID VUndefined])))"

text \<open>
  The generator object that \<^verbatim>\<open>tokenise(input)\<close> returns, between two calls of its
  \<^verbatim>\<open>next()\<close>: the scanner's variables, the tokens of the current pass that are yielded
  but not yet pulled (only the guard's second \<open>INVALID\<close> can wait there; the pass has no
  other effect left to run), and whether the generator has returned.
\<close>

record gen =
  scan :: scanner
  pending :: "token list"
  finished :: bool

definition tokenise :: "jsstring \<Rightarrow> gen" where
  "tokenise inp =
     \<lparr>scan = \<lparr>input = inp, lastNewline = False, line = 1, col = 0\<rparr>, pending = [], finished = False\<rparr>"

text \<open>
  One pull, \<^verbatim>\<open>tokens.next()\<close>: \<open>Some t\<close> is \<^verbatim>\<open>{done: false, value: t}\<close>, \<open>None\<close> is
  \<^verbatim>\<open>{done: true}\<close>. The generator runs passes of the loop until one yields; when the
  input is empty it yields \<open>EOF\<close> and returns.
\<close>

partial_function (option) gen_next :: "gen \<Rightarrow> (token option \<times> gen) outcome" where
  "gen_next g =
     (case pending g of
        t # ts \<Rightarrow> Some (Inr (Some t, g\<lparr>pending := ts\<rparr>))
      | [] \<Rightarrow>
          if finished g then Some (Inr (None, g))
          else if input (scan g) = [] then
            Some (Inr (Some (buildToken (scan g) EOF VUndefined), g\<lparr>finished := True\<rparr>))
          else
            then_do (tokenise_step (scan g)) (\<lambda>(yielded, s').
              case yielded of
                [] \<Rightarrow> gen_next (g\<lparr>scan := s'\<rparr>)
              | t # ts \<Rightarrow> Some (Inr (Some t, g\<lparr>scan := s', pending := ts\<rparr>))))"

declare gen_next.simps [code]

section \<open>The result: objects on a heap\<close>

text \<open>
  \<^verbatim>\<open>parse\<close> builds plain objects (\<^verbatim>\<open>const obj = {}\<close>) and stores one object under several
  keys, so objects live on a heap and a property holds a primitive or a reference. An
  object has its own properties, in insertion order, and a prototype: \<open>None\<close> is
  \<^verbatim>\<open>Object.prototype\<close>, which every \<^verbatim>\<open>{}\<close> starts with.
\<close>

datatype jsvalue = Prim tvalue | Ref nat

record jsobj =
  props :: "(jsstring \<times> jsvalue) list"
  proto :: "nat option"

type_synonym heap = "jsobj list"

definition new_obj :: jsobj where
  "new_obj = \<lparr>props = [], proto = None\<rparr>"

text \<open>
  \<^verbatim>\<open>obj[key] = val\<close> on such an object. The key \<^verbatim>\<open>__proto__\<close> is the accessor that
  \<^verbatim>\<open>Object.prototype\<close> defines: assigning an object to it replaces the prototype,
  assigning a primitive does nothing, and no own property is created either way. Any
  other key becomes (or stays) an own property.
\<close>

definition set_prop :: "jsobj \<Rightarrow> jsstring \<Rightarrow> jsvalue \<Rightarrow> jsobj" where
  "set_prop ob key v =
     (if key = js ''__proto__'' then (case v of Ref a \<Rightarrow> ob\<lparr>proto := Some a\<rparr> | Prim _ \<Rightarrow> ob)
      else ob\<lparr>props := AList.update key v (props ob)\<rparr>)"

text \<open>\<^verbatim>\<open>for (const key of keys) { obj[key] = val; }\<close> on the object at address \<open>obj\<close>.\<close>

definition assign_keys :: "heap \<Rightarrow> nat \<Rightarrow> jsstring list \<Rightarrow> jsvalue \<Rightarrow> heap" where
  "assign_keys h obj keys v = h[obj := foldl (\<lambda>ob key. set_prop ob key v) (h ! obj) keys]"

section \<open>The tree builder: class \<^verbatim>\<open>Parser\<close>\<close>

record parser =
  fileLoc :: jsstring
  token :: "token option"    \<comment> \<open>\<open>None\<close> until the first \<^verbatim>\<open>next()\<close>\<close>
  tokens :: gen
  comments :: "jsstring list"

definition new_Parser :: "jsstring \<Rightarrow> jsstring option \<Rightarrow> parser" where
  "new_Parser inp loc =
     \<lparr>fileLoc = (case loc of None \<Rightarrow> js ''lockfile'' | Some l \<Rightarrow> l),
      token = None, tokens = tokenise inp, comments = []\<rparr>"

definition LOCKFILE_VERSION :: nat where
  "LOCKFILE_VERSION = 1"

text \<open>\<^verbatim>\<open>comment.match(/^yarn lockfile v(\d+)$/)\<close>: the digits of the capture group.\<close>

definition version_match :: "jsstring \<Rightarrow> jsstring option" where
  "version_match comment =
     (let p = js ''yarn lockfile v''; ds = drop (length p) comment
      in if starts_with p comment \<and> ds \<noteq> [] \<and> list_all is_digit ds then Some ds else None)"

text \<open>
  The string that \<^verbatim>\<open>onComment\<close> throws. \<^verbatim>\<open>${version}\<close> prints a double: the decimal digits
  of the integer below \<open>2^53\<close>, where the value is exact (beyond, the engine prints the
  rounded value, from \<open>10^21\<close> on with an exponent; the model prints the integer).
\<close>

definition version_message :: "nat \<Rightarrow> jsstring" where
  "version_message version =
     js ''Can't install from a lockfile of version '' @ dec version
     @ js '' as you're on an old yarn version that only supports versions up to ''
     @ dec LOCKFILE_VERSION
     @ js ''. Run `$ yarn self-update` to upgrade to the latest version.''"

definition onComment :: "token \<Rightarrow> parser \<Rightarrow> error + parser" where
  "onComment tok p =
     (case t_value tok of
        VStr val \<Rightarrow>
          (let comment = trim val in
           case version_match comment of
             None \<Rightarrow> Inr (p\<lparr>comments := comments p @ [comment]\<rparr>)
           | Some ds \<Rightarrow>
               if LOCKFILE_VERSION < number_of ds then Inl (ThrownString (version_message (number_of ds)))
               else Inr (p\<lparr>comments := comments p @ [comment]\<rparr>))
      | _ \<Rightarrow> Inl (InvariantViolation (js ''expected token value to be a string'')))"

text \<open>
  \<^verbatim>\<open>Parser.next\<close>: pulls one token, throws "No more tokens" on a generator that has
  returned, hands a comment to \<^verbatim>\<open>onComment\<close> and pulls again, and otherwise makes the
  token the current one.
\<close>

partial_function (option) parser_next :: "parser \<Rightarrow> (token \<times> parser) outcome" where
  "parser_next p =
     then_do (gen_next (tokens p)) (\<lambda>(item, g).
       case item of
         None \<Rightarrow> Some (Inl (Error (js ''No more tokens'')))
       | Some tok \<Rightarrow>
           if t_type tok = COMMENT then
             (case onComment tok (p\<lparr>tokens := g\<rparr>) of
                Inl e \<Rightarrow> Some (Inl e)
              | Inr p' \<Rightarrow> parser_next p')
           else Some (Inr (tok, p\<lparr>tokens := g, token := Some tok\<rparr>)))"

declare parser_next.simps [code]

text \<open>\<^verbatim>\<open>Parser.unexpected\<close>: always throws, with the current token's position.\<close>

definition unexpected :: "jsstring \<Rightarrow> parser \<Rightarrow> 'a outcome" where
  "unexpected msg p =
     (case token p of
        None \<Rightarrow> Some (Inl (TypeError (js ''Cannot read property of undefined'')))
      | Some tok \<Rightarrow>
          Some (Inl (SyntaxError
            (msg @ js '' '' @ dec (t_line tok) @ js '':'' @ dec (t_col tok) @ js '' in '' @ fileLoc p))))"

definition isValidPropValueToken :: "token \<Rightarrow> bool" where
  "isValidPropValueToken tok = (t_type tok \<in> {BOOLEAN, STRING, NUMBER})"

text \<open>
  \<^verbatim>\<open>const key = tok.value as string; invariant(key, "Expected a key")\<close>: the empty string
  is falsy. (A \<open>STRING\<close> token always carries a string; the last case cannot arise.)
\<close>

definition key_of :: "token \<Rightarrow> error + jsstring" where
  "key_of tok =
     (case t_value tok of
        VStr key \<Rightarrow> if key = [] then Inl (InvariantViolation (js ''Expected a key'')) else Inr key
      | _ \<Rightarrow> Inl (InvariantViolation (js ''Expected a key'')))"

text \<open>
  The loop \<^verbatim>\<open>while (this.token.type === TOKEN_TYPES.comma)\<close> that collects the further keys
  of an alias list.
\<close>

partial_function (option) more_keys :: "jsstring list \<Rightarrow> parser \<Rightarrow> (jsstring list \<times> parser) outcome"
  where
  "more_keys keys p =
     (case token p of
        None \<Rightarrow> Some (Inl (TypeError (js ''Cannot read property of undefined'')))
      | Some tok \<Rightarrow>
          if t_type tok = COMMA then
            then_do (parser_next p) (\<lambda>(keyToken, p1).
              if t_type keyToken \<noteq> STRING then unexpected (js ''Expected string'') p1
              else
                (case key_of keyToken of
                   Inl e \<Rightarrow> Some (Inl e)
                 | Inr key \<Rightarrow> then_do (parser_next p1) (\<lambda>(_, p2). more_keys (keys @ [key]) p2)))
          else Some (Inr (keys, p)))"

declare more_keys.simps [code]

text \<open>
  \<^verbatim>\<open>Parser.parse(indent)\<close>. \<open>parse_loop indent obj h p\<close> is the \<^verbatim>\<open>while (true)\<close> loop on
  the object at address \<open>obj\<close> of the heap \<open>h\<close>: a \<^verbatim>\<open>continue\<close> is the recursive call, a
  \<^verbatim>\<open>break\<close> returns the heap and the parser. The recursive \<^verbatim>\<open>this.parse(indent + 1)\<close>
  allocates its \<^verbatim>\<open>{}\<close> at the next free address and runs the loop on it.
\<close>

partial_function (option) parse_loop :: "nat \<Rightarrow> nat \<Rightarrow> heap \<Rightarrow> parser \<Rightarrow> (heap \<times> parser) outcome"
  where
  "parse_loop indent obj h p =
     (case token p of
        None \<Rightarrow> Some (Inl (TypeError (js ''Cannot read property of undefined'')))
      | Some propToken \<Rightarrow>
          if t_type propToken = NEWLINE then
            then_do (parser_next p) (\<lambda>(nextToken, p1).
              if indent = 0 then parse_loop indent obj h p1
              else if t_type nextToken \<noteq> INDENT then Some (Inr (h, p1))
              else if t_value nextToken = VNum indent then
                then_do (parser_next p1) (\<lambda>(_, p2). parse_loop indent obj h p2)
              else Some (Inr (h, p1)))
          else if t_type propToken = INDENT then
            (if t_value propToken = VNum indent then
               then_do (parser_next p) (\<lambda>(_, p1). parse_loop indent obj h p1)
             else Some (Inr (h, p)))
          else if t_type propToken = EOF then Some (Inr (h, p))
          else if t_type propToken = STRING then
            (case key_of propToken of
               Inl e \<Rightarrow> Some (Inl e)
             | Inr key \<Rightarrow>
                 then_do (parser_next p) (\<lambda>(_, p1).
                 then_do (more_keys [key] p1) (\<lambda>(keys, p2).
                   case token p2 of
                     None \<Rightarrow> Some (Inl (TypeError (js ''Cannot read property of undefined'')))
                   | Some valToken \<Rightarrow>
                       if t_type valToken = COLON then
                         then_do (parser_next p2) (\<lambda>(_, p3).
                         then_do (parse_loop (indent + 1) (length h) (h @ [new_obj]) p3) (\<lambda>(h1, p4).
                           let h2 = assign_keys h1 obj keys (Ref (length h)) in
                           if indent \<noteq> 0 \<and> map_option t_type (token p4) \<noteq> Some INDENT
                           then Some (Inr (h2, p4))
                           else parse_loop indent obj h2 p4))
                       else if isValidPropValueToken valToken then
                         then_do (parser_next p2) (\<lambda>(_, p3).
                           parse_loop indent obj (assign_keys h obj keys (Prim (t_value valToken))) p3)
                       else unexpected (js ''Invalid value type'') p2)))
          else unexpected (js ''Unknown token'') p)"

declare parse_loop.simps [code]

text \<open>
  The \<^verbatim>\<open>strip-bom\<close> package: drops one leading \<open>U+FEFF\<close>.
\<close>

definition stripBOM :: "jsstring \<Rightarrow> jsstring" where
  "stripBOM str = (case str of [] \<Rightarrow> [] | c # cs \<Rightarrow> if c = BOM then cs else str)"

text \<open>
  The exported \<^verbatim>\<open>parse(str, fileLoc = "lockfile")\<close>: the result is the heap and the address
  of the returned object.
\<close>

definition parse :: "jsstring \<Rightarrow> jsstring option \<Rightarrow> (heap \<times> nat) outcome" where
  "parse str loc =
     (let parser = new_Parser (stripBOM str) loc in
      then_do (parser_next parser) (\<lambda>(_, p).
      then_do (parse_loop 0 0 [new_obj] p) (\<lambda>(h, _). Some (Inr (h, 0)))))"

section \<open>Notions for stating and proving the claims\<close>

text \<open>
  Partial correctness of a computation: if it returns, the error satisfies \<open>E\<close> or the
  value satisfies \<open>Q\<close>.
\<close>

definition post :: "'a outcome \<Rightarrow> (error \<Rightarrow> bool) \<Rightarrow> ('a \<Rightarrow> bool) \<Rightarrow> bool" where
  "post m E Q = (case m of None \<Rightarrow> True | Some (Inl e) \<Rightarrow> E e | Some (Inr x) \<Rightarrow> Q x)"

text \<open>
  \<open>yields g ts g'\<close>: pulling the generator \<open>g\<close> as many times as \<open>ts\<close> is long delivers
  the tokens \<open>ts\<close>, in order, and leaves the generator \<open>g'\<close>.
\<close>

inductive yields :: "gen \<Rightarrow> token list \<Rightarrow> gen \<Rightarrow> bool" where
  yields_Nil: "yields g [] g"
| yields_Cons: "gen_next g = Some (Inr (Some t, g1)) \<Longrightarrow> yields g1 ts g' \<Longrightarrow> yields g (t # ts) g'"

definition is_Error :: "error \<Rightarrow> bool" where
  "is_Error e = (case e of Error _ \<Rightarrow> True | _ \<Rightarrow> False)"

definition is_SyntaxError :: "error \<Rightarrow> bool" where
  "is_SyntaxError e = (case e of SyntaxError _ \<Rightarrow> True | _ \<Rightarrow> False)"

text \<open>
  The tree builder's invariant: there is a current token, and the generator has returned
  only if that token is \<open>EOF\<close>.
\<close>

definition live :: "parser \<Rightarrow> bool" where
  "live p = (case token p of None \<Rightarrow> False | Some tok \<Rightarrow> finished (tokens p) \<longrightarrow> t_type tok = EOF)"

text \<open>
  The three messages of \<^verbatim>\<open>unexpected\<close> and the tokens they are raised on: a token other
  than a string after a comma, a token that is neither a colon nor a value after the
  keys, and a token that starts neither a line nor an entry.
\<close>

definition unexpected_token :: "jsstring \<Rightarrow> token \<Rightarrow> bool" where
  "unexpected_token msg tok =
     ((msg = js ''Expected string'' \<and> t_type tok \<noteq> STRING)
      \<or> (msg = js ''Invalid value type'' \<and> t_type tok \<notin> {COLON, BOOLEAN, STRING, NUMBER})
      \<or> (msg = js ''Unknown token'' \<and> t_type tok \<notin> {NEWLINE, INDENT, EOF, STRING}))"

text \<open>
  The text of a \<^verbatim>\<open>SyntaxError\<close>: one of the three messages, then the line and column of
  the last token pulled from the generator \<open>g0\<close>, then the label.
\<close>

definition syntax_message :: "gen \<Rightarrow> jsstring \<Rightarrow> jsstring \<Rightarrow> bool" where
  "syntax_message g0 loc m =
     (\<exists>msg tok ts g. unexpected_token msg tok \<and> yields g0 ts g \<and> ts \<noteq> [] \<and> last ts = tok
        \<and> m = msg @ js '' '' @ dec (t_line tok) @ js '':'' @ dec (t_col tok) @ js '' in '' @ loc)"

definition fails_well :: "gen \<Rightarrow> jsstring \<Rightarrow> error \<Rightarrow> bool" where
  "fails_well g0 loc e = (\<not> is_Error e \<and> (\<forall>m. e = SyntaxError m \<longrightarrow> syntax_message g0 loc m))"

definition good :: "gen \<Rightarrow> jsstring \<Rightarrow> parser \<Rightarrow> bool" where
  "good g0 loc p =
     (fileLoc p = loc \<and> live p
      \<and> (\<exists>ts. yields g0 ts (tokens p) \<and> ts \<noteq> [] \<and> token p = Some (last ts)))"

text \<open>A generator as pulls leave it: no \<open>EOF\<close> waits, and nothing waits once it has returned.\<close>

definition reachable :: "gen \<Rightarrow> bool" where
  "reachable g = ((\<forall>t\<in>set (pending g). t_type t \<noteq> EOF) \<and> (finished g \<longrightarrow> pending g = []))"








text \<open>
  Well-formed blocks, as a yarn lockfile writes them. A word stands bare or between
  double quotes. A bare word is one that the scanner reads as a single string: it
  starts with a letter, \<^verbatim>\<open>/\<close> or \<^verbatim>\<open>-\<close>, holds no colon, space, newline or comma, and does not
  start with \<^verbatim>\<open>true\<close> or \<^verbatim>\<open>false\<close>. A quoted word holds no quote, backslash or control
  character, so it needs no escape.
\<close>

datatype word = Bare jsstring | Quoted jsstring

fun name_of :: "word \<Rightarrow> jsstring" where
  "name_of (Bare w) = w"
| "name_of (Quoted w) = w"

fun render_word :: "word \<Rightarrow> jsstring" where
  "render_word (Bare w) = w"
| "render_word (Quoted w) = DQ # w @ [DQ]"

definition plain_char :: "jschar \<Rightarrow> bool" where
  "plain_char c = (0x20 \<le> c \<and> c \<noteq> DQ \<and> c \<noteq> BS)"

definition bare_ok :: "jsstring \<Rightarrow> bool" where
  "bare_ok w =
     (w \<noteq> [] \<and> list_all is_name_start (take 1 w) \<and> list_all (\<lambda>c. \<not> is_name_end c) w
      \<and> \<not> starts_with (js ''true'') w \<and> \<not> starts_with (js ''false'') w)"

fun word_ok :: "word \<Rightarrow> bool" where
  "word_ok (Bare w) = bare_ok w"
| "word_ok (Quoted w) = list_all plain_char w"

text \<open>A key is a word that is not empty.\<close>

definition key_ok :: "word \<Rightarrow> bool" where
  "key_ok k = (word_ok k \<and> name_of k \<noteq> [])"

text \<open>
  An entry has a first key and further keys, the aliases, joined by a comma and a space.
  A leaf holds a value on the same line; a block ends its line with a colon and holds the
  entries of the lines below, indented by two more spaces.
\<close>

datatype entry = Leaf word "word list" word | Block word "word list" "entry list"

definition render_more :: "word list \<Rightarrow> jsstring" where
  "render_more ks = concat (map (\<lambda>k. COMMA_C # SP # render_word k) ks)"

fun render :: "nat \<Rightarrow> entry \<Rightarrow> jsstring" where
  "render d (Leaf k ks v) =
     replicate (2 * d) SP @ render_word k @ render_more ks @ [SP] @ render_word v @ [NL]"
| "render d (Block k ks es) =
     replicate (2 * d) SP @ render_word k @ render_more ks @ [COLON_C, NL]
     @ concat (map (render (Suc d)) es)"

definition render_entries :: "nat \<Rightarrow> entry list \<Rightarrow> jsstring" where
  "render_entries d es = concat (map (render d) es)"

fun entry_ok :: "entry \<Rightarrow> bool" where
  "entry_ok (Leaf k ks v) = (key_ok k \<and> list_all key_ok ks \<and> word_ok v)"
| "entry_ok (Block k ks es) = (key_ok k \<and> list_all key_ok ks \<and> list_all entry_ok es)"


fun nlines :: "entry \<Rightarrow> nat" where
  "nlines (Leaf k ks v) = 1"
| "nlines (Block k ks es) = 1 + sum_list (map nlines es)"

text \<open>
  The heap that the entries describe: a leaf assigns its value to its keys in the object
  at \<open>obj\<close>; a block allocates a new object, fills it with its entries, and assigns the
  reference to that one object to its keys.
\<close>

fun build :: "nat \<Rightarrow> heap \<Rightarrow> entry \<Rightarrow> heap" where
  "build obj h (Leaf k ks v) = assign_keys h obj (name_of k # map name_of ks) (Prim (VStr (name_of v)))"
| "build obj h (Block k ks es) =
     assign_keys (foldl (build (length h)) (h @ [new_obj]) es) obj
       (name_of k # map name_of ks) (Ref (length h))"

definition build_all :: "nat \<Rightarrow> heap \<Rightarrow> entry list \<Rightarrow> heap" where
  "build_all obj h es = foldl (build obj) h es"

text \<open>States of the scanner and of the tree builder, written short.\<close>

definition sc :: "jsstring \<Rightarrow> bool \<Rightarrow> nat \<Rightarrow> nat \<Rightarrow> scanner" where
  "sc i n l c = \<lparr>input = i, lastNewline = n, line = l, col = c\<rparr>"

definition tk :: "nat \<Rightarrow> nat \<Rightarrow> token_type \<Rightarrow> tvalue \<Rightarrow> token" where
  "tk l c ty v = \<lparr>t_line = l, t_col = c, t_type = ty, t_value = v\<rparr>"

definition fresh :: "scanner \<Rightarrow> gen" where
  "fresh s = \<lparr>scan = s, pending = [], finished = False\<rparr>"

definition pst :: "jsstring \<Rightarrow> jsstring list \<Rightarrow> token option \<Rightarrow> scanner \<Rightarrow> parser" where
  "pst loc cs t s = \<lparr>fileLoc = loc, token = t, tokens = fresh s, comments = cs\<rparr>"

text \<open>The tree builder at the start of line \<open>l\<close>: the newline is the current token.\<close>

definition at_line :: "jsstring \<Rightarrow> jsstring list \<Rightarrow> nat \<Rightarrow> jsstring \<Rightarrow> parser" where
  "at_line loc cs l rest = pst loc cs (Some (tk l 0 NEWLINE VUndefined)) (sc rest True l 1)"

text \<open>The two continuations inside the string case of \<^verbatim>\<open>Parser.parse\<close>.\<close>

definition after_block :: "nat \<Rightarrow> nat \<Rightarrow> jsstring list \<Rightarrow> nat \<Rightarrow> heap \<times> parser \<Rightarrow> (heap \<times> parser) outcome"
  where
  "after_block indent obj keys a =
     (\<lambda>(h1, p4).
        let h2 = assign_keys h1 obj keys (Ref a) in
        if indent \<noteq> 0 \<and> map_option t_type (token p4) \<noteq> Some INDENT
        then Some (Inr (h2, p4))
        else parse_loop indent obj h2 p4)"

definition after_keys :: "nat \<Rightarrow> nat \<Rightarrow> heap \<Rightarrow> jsstring list \<times> parser \<Rightarrow> (heap \<times> parser) outcome"
  where
  "after_keys indent obj h =
     (\<lambda>(keys, p2).
        case token p2 of
          None \<Rightarrow> Some (Inl (TypeError (js ''Cannot read property of undefined'')))
        | Some valToken \<Rightarrow>
            if t_type valToken = COLON then
              then_do (parser_next p2) (\<lambda>(_, p3).
              then_do (parse_loop (indent + 1) (length h) (h @ [new_obj]) p3)
                (after_block indent obj keys (length h)))
            else if isValidPropValueToken valToken then
              then_do (parser_next p2) (\<lambda>(_, p3).
                parse_loop indent obj (assign_keys h obj keys (Prim (t_value valToken))) p3)
            else unexpected (js ''Invalid value type'') p2)"

text \<open>
  What may follow the entries of a block at depth \<open>d\<close>: the next line does not start
  with an indentation deeper than \<open>d\<close> (or the pull at its start fails), so that the loops
  of the deeper levels all leave on it.
\<close>

definition stops_at :: "nat \<Rightarrow> parser \<Rightarrow> bool" where
  "stops_at d p =
     (case parser_next p of
        Some (Inr (t, p1)) \<Rightarrow> t_type t = INDENT \<longrightarrow> (\<exists>n. t_value t = VNum n \<and> n \<le> d)
      | _ \<Rightarrow> True)"

definition follows :: "nat \<Rightarrow> jsstring \<Rightarrow> jsstring list \<Rightarrow> jsstring \<Rightarrow> bool" where
  "follows d loc cs rest = (\<forall>l. stops_at d (at_line loc cs l rest))"

text \<open>The lines that a list of entries takes.\<close>

definition total_lines :: "entry list \<Rightarrow> nat" where
  "total_lines es = sum_list (map nlines es)"

text \<open>The first key of an entry.\<close>

fun first_key :: "entry \<Rightarrow> word" where
  "first_key (Leaf k ks v) = k"
| "first_key (Block k ks es) = k"

text \<open>The text of an entry after its first key.\<close>

fun entry_tail :: "nat \<Rightarrow> entry \<Rightarrow> jsstring" where
  "entry_tail d (Leaf k ks v) = render_more ks @ SP # render_word v @ [NL]"
| "entry_tail d (Block k ks es) = render_more ks @ COLON_C # NL # render_entries (Suc d) es"

text \<open>The label that \<^verbatim>\<open>parse\<close> hands to the tree builder: the one given, or \<^verbatim>\<open>lockfile\<close>.\<close>

definition label :: "jsstring option \<Rightarrow> jsstring" where
  "label loc = (case loc of None \<Rightarrow> js ''lockfile'' | Some l \<Rightarrow> l)"






section \<open>Lemmas\<close>

lemma then_do_eq_Some:
  "then_do m f = Some r \<longleftrightarrow>
     (\<exists>e. m = Some (Inl e) \<and> r = Inl e) \<or> (\<exists>x. m = Some (Inr x) \<and> f x = Some r)"
  by (auto simp: then_do_def split: option.splits sum.splits)

lemma post_simps [simp]:
  "post None E Q"
  "post (Some (Inl e)) E Q = E e"
  "post (Some (Inr x)) E Q = Q x"
  by (simp_all add: post_def)

lemma post_then_do:
  assumes "post m E Q'" and "\<And>x. Q' x \<Longrightarrow> post (f x) E Q"
  shows "post (then_do m f) E Q"
proof (cases m)
  case None
  then show ?thesis by simp
next
  case (Some a)
  show ?thesis
  proof (cases a)
    case (Inl e)
    with Some assms(1) show ?thesis by simp
  next
    case (Inr x)
    with Some assms(1) have "Q' x" by simp
    from assms(2) [OF this] Some Inr show ?thesis by simp
  qed
qed

lemma post_then_do_pair:
  assumes "post m E (\<lambda>(a, b). Q' a b)" and "\<And>a b. Q' a b \<Longrightarrow> post (f a b) E Q"
  shows "post (then_do m (\<lambda>(a, b). f a b)) E Q"
  by (rule post_then_do [OF assms(1)]) (auto intro: assms(2))

lemma post_weaken:
  assumes "post m E' Q'" and "\<And>e. E' e \<Longrightarrow> E e" and "\<And>x. Q' x \<Longrightarrow> Q x"
  shows "post m E Q"
  using assms by (auto simp: post_def split: option.splits sum.splits)

lemma post_iff: "post m E Q \<longleftrightarrow> (\<forall>r. m = Some r \<longrightarrow> (case r of Inl e \<Rightarrow> E e | Inr x \<Rightarrow> Q x))"
  by (auto simp: post_def split: option.splits sum.splits)

lemma yields_append: "yields g ts g' \<Longrightarrow> yields g' ts' g'' \<Longrightarrow> yields g (ts @ ts') g''"
  by (induction rule: yields.induct) (auto intro: yields.intros)

lemma yields_one: "gen_next g = Some (Inr (Some t, g')) \<Longrightarrow> yields g [t] g'"
  by (auto intro: yields.intros)

lemma tokenise_step_throws:
  "tokenise_step s = Some (Inl e) \<Longrightarrow> e = TypeError (js ''Invalid number of spaces'')"
  by (auto simp: tokenise_step_def Let_def split: if_splits option.splits prod.splits)

lemma gen_next_post:
  "post (gen_next g) (\<lambda>e. e = TypeError (js ''Invalid number of spaces''))
     (\<lambda>(item, g'). \<not> finished g \<longrightarrow> (\<exists>t. item = Some t \<and> (finished g' \<longrightarrow> t_type t = EOF)))"
proof -
  have "(case r of Inl e \<Rightarrow> e = TypeError (js ''Invalid number of spaces'')
       | Inr (item, g') \<Rightarrow> \<not> finished g \<longrightarrow> (\<exists>t. item = Some t \<and> (finished g' \<longrightarrow> t_type t = EOF)))"
    if H: "gen_next g = Some r" for r
  proof (induction rule: gen_next.raw_induct [OF _ H])
    case (1 gen_next' g r)
    note IH = 1(1) and body = 1(2)
    show ?case
    proof (cases "pending g")
      case (Cons t ts)
      with body show ?thesis by auto
    next
      case Nil
      show ?thesis
      proof (cases "finished g \<or> input (scan g) = []")
        case True
        with body Nil show ?thesis by (auto simp: buildToken_def split: if_splits)
      next
        case False
        with body Nil have "then_do (tokenise_step (scan g)) (\<lambda>(yielded, s').
            case yielded of [] \<Rightarrow> gen_next' (g\<lparr>scan := s'\<rparr>)
            | t # ts \<Rightarrow> Some (Inr (Some t, g\<lparr>scan := s', pending := ts\<rparr>))) = Some r"
          by simp
        then consider (thr) e where "tokenise_step (scan g) = Some (Inl e)" "r = Inl e"
          | (ok) ys s' where "tokenise_step (scan g) = Some (Inr (ys, s'))"
              "(case ys of [] \<Rightarrow> gen_next' (g\<lparr>scan := s'\<rparr>)
                | t # ts \<Rightarrow> Some (Inr (Some t, g\<lparr>scan := s', pending := ts\<rparr>))) = Some r"
          by (auto simp: then_do_eq_Some)
        then consider (thr) e where "tokenise_step (scan g) = Some (Inl e)" "r = Inl e"
          | (skip) s' where "gen_next' (g\<lparr>scan := s'\<rparr>) = Some r"
          | (tok) t ts s' where "r = Inr (Some t, g\<lparr>scan := s', pending := ts\<rparr>)"
        proof cases
          case thr
          then show ?thesis using that(1) by blast
        next
          case ok
          then show ?thesis using that(2,3) by (cases ys) auto
        qed
        then show ?thesis
        proof cases
          case thr
          then show ?thesis by (auto dest: tokenise_step_throws)
        next
          case skip
          from IH [OF this] False show ?thesis by (auto split: sum.splits)
        next
          case tok
          with False show ?thesis by auto
        qed
      qed
    qed
  qed
  then show ?thesis by (simp add: post_iff)
qed

lemma onComment_Inr:
  "onComment tok p = Inr p' \<Longrightarrow> tokens p' = tokens p \<and> fileLoc p' = fileLoc p \<and> token p' = token p"
  by (auto simp: onComment_def Let_def split: tvalue.splits option.splits if_splits)

lemma onComment_Inl:
  "onComment tok p = Inl e \<Longrightarrow> \<not> is_Error e \<and> \<not> is_SyntaxError e"
  by (auto simp: onComment_def Let_def is_Error_def is_SyntaxError_def
      split: tvalue.splits option.splits if_splits)

lemma parser_next_post:
  "post (parser_next p)
     (\<lambda>e. \<not> is_SyntaxError e \<and> (\<not> finished (tokens p) \<longrightarrow> \<not> is_Error e))
     (\<lambda>(tok, p'). token p' = Some tok \<and> fileLoc p' = fileLoc p
        \<and> (\<exists>ts. yields (tokens p) ts (tokens p') \<and> ts \<noteq> [] \<and> last ts = tok)
        \<and> (\<not> finished (tokens p) \<longrightarrow> finished (tokens p') \<longrightarrow> t_type tok = EOF))"
proof -
  have "(case r of Inl e \<Rightarrow> \<not> is_SyntaxError e \<and> (\<not> finished (tokens p) \<longrightarrow> \<not> is_Error e)
       | Inr (tok, p') \<Rightarrow> token p' = Some tok \<and> fileLoc p' = fileLoc p
           \<and> (\<exists>ts. yields (tokens p) ts (tokens p') \<and> ts \<noteq> [] \<and> last ts = tok)
           \<and> (\<not> finished (tokens p) \<longrightarrow> finished (tokens p') \<longrightarrow> t_type tok = EOF))"
    if H: "parser_next p = Some r" for r
  proof (induction rule: parser_next.raw_induct [OF _ H])
    case (1 parser_next' p r)
    note IH = 1(1) and body = 1(2)
    note gp = gen_next_post [of "tokens p", unfolded post_iff, rule_format]
    from body consider (thr) e where "gen_next (tokens p) = Some (Inl e)" "r = Inl e"
      | (ok) item g where "gen_next (tokens p) = Some (Inr (item, g))"
          "(case item of
              None \<Rightarrow> Some (Inl (Error (js ''No more tokens'')))
            | Some tok \<Rightarrow>
                if t_type tok = COMMENT then
                  (case onComment tok (p\<lparr>tokens := g\<rparr>) of
                     Inl e \<Rightarrow> Some (Inl e)
                   | Inr p' \<Rightarrow> parser_next' p')
                else Some (Inr (tok, p\<lparr>tokens := g, token := Some tok\<rparr>))) = Some r"
      by (auto simp: then_do_eq_Some)
    then consider (thr) e where "gen_next (tokens p) = Some (Inl e)" "r = Inl e"
      | (fin) g where "gen_next (tokens p) = Some (Inr (None, g))" "r = Inl (Error (js ''No more tokens''))"
      | (com) tok g where "gen_next (tokens p) = Some (Inr (Some tok, g))" "t_type tok = COMMENT"
          "(case onComment tok (p\<lparr>tokens := g\<rparr>) of Inl e \<Rightarrow> Some (Inl e) | Inr p' \<Rightarrow> parser_next' p') = Some r"
      | (tok) tok g where "gen_next (tokens p) = Some (Inr (Some tok, g))" "t_type tok \<noteq> COMMENT"
          "r = Inr (tok, p\<lparr>tokens := g, token := Some tok\<rparr>)"
    proof cases
      case thr
      then show ?thesis using that(1) by blast
    next
      case ok
      show ?thesis
      proof (cases item)
        case None
        with ok show ?thesis using that(2) by auto
      next
        case (Some tok)
        with ok show ?thesis using that(3,4) by (cases "t_type tok = COMMENT") auto
      qed
    qed
    then show ?case
    proof cases
      case thr
      with gp [OF thr(1)] show ?thesis by (simp add: is_Error_def is_SyntaxError_def)
    next
      case fin
      with gp [OF fin(1)] show ?thesis by (auto simp: is_Error_def is_SyntaxError_def)
    next
      case com
      note g = gp [OF com(1)]
      show ?thesis
      proof (cases "onComment tok (p\<lparr>tokens := g\<rparr>)")
        case (Inl e)
        with com onComment_Inl [OF Inl] show ?thesis by auto
      next
        case (Inr p')
        with com have rec: "parser_next' p' = Some r" by simp
        note oc = onComment_Inr [OF Inr]
        show ?thesis
        proof (cases r)
          case (Inl e)
          with IH [OF rec] oc g com(2) show ?thesis by auto
        next
          case r: (Inr b)
          obtain tk q where b: "b = (tk, q)" by (cases b)
          from IH [OF rec] r b oc obtain ts where
            a: "token q = Some tk" "fileLoc q = fileLoc p"
              "yields g ts (tokens q)" "ts \<noteq> []" "last ts = tk"
              "\<not> finished g \<longrightarrow> finished (tokens q) \<longrightarrow> t_type tk = EOF"
            by auto
          from a(3) com(1) have "yields (tokens p) (tok # ts) (tokens q)"
            by (auto intro: yields.intros)
          moreover have "last (tok # ts) = tk" using a(4,5) by simp
          ultimately have "\<exists>ts. yields (tokens p) ts (tokens q) \<and> ts \<noteq> [] \<and> last ts = tk"
            by blast
          with a g com(2) r b show ?thesis by auto
        qed
      qed
    next
      case tok
      with gp [OF tok(1)] yields_one [OF tok(1)] show ?thesis by auto
    qed
  qed
  then show ?thesis by (simp add: post_iff)
qed

lemma good_token: "good g0 loc p \<Longrightarrow> \<exists>tok. token p = Some tok"
  by (auto simp: good_def)

lemma post_next:
  assumes "good g0 loc p" and "token p = Some tok" and "t_type tok \<noteq> EOF"
    and "\<And>tok' p'. token p' = Some tok' \<Longrightarrow> good g0 loc p'
          \<Longrightarrow> post (f tok' p') (fails_well g0 loc) Q"
  shows "post (then_do (parser_next p) (\<lambda>(tok', p'). f tok' p')) (fails_well g0 loc) Q"
proof (rule post_then_do_pair)
  have nf: "\<not> finished (tokens p)"
    using assms(1,2,3) by (auto simp: good_def live_def)
  from assms(1) obtain ts0 where ts0: "yields g0 ts0 (tokens p)" "fileLoc p = loc"
    by (auto simp: good_def)
  show "post (parser_next p) (fails_well g0 loc)
     (\<lambda>(tok, p'). token p' = Some tok \<and> good g0 loc p')"
  proof (rule post_weaken [OF parser_next_post])
    fix e
    assume "\<not> is_SyntaxError e \<and> (\<not> finished (tokens p) \<longrightarrow> \<not> is_Error e)"
    with nf show "fails_well g0 loc e"
      by (auto simp: fails_well_def is_SyntaxError_def)
  next
    fix x :: "token \<times> parser"
    assume a: "case x of (tok, p') \<Rightarrow> token p' = Some tok \<and> fileLoc p' = fileLoc p
        \<and> (\<exists>ts. yields (tokens p) ts (tokens p') \<and> ts \<noteq> [] \<and> last ts = tok)
        \<and> (\<not> finished (tokens p) \<longrightarrow> finished (tokens p') \<longrightarrow> t_type tok = EOF)"
    obtain tk q where x: "x = (tk, q)" by (cases x)
    from a x obtain ts where b: "token q = Some tk" "fileLoc q = fileLoc p"
       "yields (tokens p) ts (tokens q)" "ts \<noteq> []" "last ts = tk"
       "finished (tokens q) \<longrightarrow> t_type tk = EOF"
      using nf by auto
    from yields_append [OF ts0(1) b(3)] b(4,5)
    have "yields g0 (ts0 @ ts) (tokens q) \<and> ts0 @ ts \<noteq> [] \<and> last (ts0 @ ts) = tk" by simp
    then have "\<exists>ts. yields g0 ts (tokens q) \<and> ts \<noteq> [] \<and> token q = Some (last ts)"
      using b(1) by blast
    with b ts0(2) x show "case x of (tok, p') \<Rightarrow> token p' = Some tok \<and> good g0 loc p'"
      by (simp add: good_def live_def)
  qed
next
  fix tok' p'
  assume "token p' = Some tok' \<and> good g0 loc p'"
  then show "post (f tok' p') (fails_well g0 loc) Q"
    using assms(4) by simp
qed

lemma post_unexpected:
  assumes "good g0 loc p" and "token p = Some tok" and "unexpected_token msg tok"
  shows "post (unexpected msg p) (fails_well g0 loc) Q"
proof -
  from assms(1,2) obtain ts where "yields g0 ts (tokens p)" "ts \<noteq> []" "last ts = tok"
    "fileLoc p = loc"
    by (auto simp: good_def)
  with assms(2,3) show ?thesis
    by (auto simp: unexpected_def fails_well_def is_Error_def syntax_message_def)
qed

lemma key_of_Inl: "key_of tok = Inl e \<Longrightarrow> fails_well g0 loc e"
  by (auto simp: key_of_def fails_well_def is_Error_def split: tvalue.splits if_splits)

lemma more_keys_post:
  assumes "good g0 loc p"
  shows "post (more_keys keys p) (fails_well g0 loc) (\<lambda>(ks, p'). good g0 loc p')"
proof -
  let ?Q = "\<lambda>(ks :: jsstring list, p'). good g0 loc p'"
  have "good g0 loc p \<longrightarrow> (case r of Inl e \<Rightarrow> fails_well g0 loc e | Inr (ks, p') \<Rightarrow> good g0 loc p')"
    if H: "more_keys keys p = Some r" for r
  proof (induction rule: more_keys.raw_induct [OF _ H])
    case (1 more_keys' keys p r)
    have IH: "post (more_keys' ks q) (fails_well g0 loc) ?Q" if "good g0 loc q" for ks q
      using 1(1) [of ks q] that by (auto simp: post_iff)
    show ?case
    proof (intro impI)
      assume gp: "good g0 loc p"
      then obtain tok where tok: "token p = Some tok" by (auto dest: good_token)
      have "post (if t_type tok = COMMA then
            then_do (parser_next p) (\<lambda>(keyToken, p1).
              if t_type keyToken \<noteq> STRING then unexpected (js ''Expected string'') p1
              else
                (case key_of keyToken of
                   Inl e \<Rightarrow> Some (Inl e)
                 | Inr key \<Rightarrow> then_do (parser_next p1) (\<lambda>(_, p2). more_keys' (keys @ [key]) p2)))
          else Some (Inr (keys, p))) (fails_well g0 loc) ?Q"
      proof (cases "t_type tok = COMMA")
        case False
        with gp show ?thesis by simp
      next
        case True
        have "post (then_do (parser_next p) (\<lambda>(keyToken, p1).
              if t_type keyToken \<noteq> STRING then unexpected (js ''Expected string'') p1
              else
                (case key_of keyToken of
                   Inl e \<Rightarrow> Some (Inl e)
                 | Inr key \<Rightarrow> then_do (parser_next p1) (\<lambda>(_, p2). more_keys' (keys @ [key]) p2))))
            (fails_well g0 loc) ?Q"
        proof (rule post_next [OF gp tok])
          show "t_type tok \<noteq> EOF" using True by simp
        next
          fix keyToken p1
          assume t1: "token p1 = Some keyToken" and g1: "good g0 loc p1"
          show "post (if t_type keyToken \<noteq> STRING then unexpected (js ''Expected string'') p1
              else
                (case key_of keyToken of
                   Inl e \<Rightarrow> Some (Inl e)
                 | Inr key \<Rightarrow> then_do (parser_next p1) (\<lambda>(_, p2). more_keys' (keys @ [key]) p2)))
              (fails_well g0 loc) ?Q"
          proof (cases "t_type keyToken = STRING")
            case False
            then show ?thesis
              using post_unexpected [OF g1 t1, of "js ''Expected string''"]
              by (simp add: unexpected_token_def)
          next
            case str: True
            show ?thesis
            proof (cases "key_of keyToken")
              case (Inl e)
              with str key_of_Inl [OF Inl] show ?thesis by simp
            next
              case (Inr key)
              have "post (then_do (parser_next p1) (\<lambda>(_, p2). more_keys' (keys @ [key]) p2))
                  (fails_well g0 loc) ?Q"
              proof (rule post_next [OF g1 t1])
                show "t_type keyToken \<noteq> EOF" using str by simp
              qed (rule IH)
              with str Inr show ?thesis by simp
            qed
          qed
        qed
        with True show ?thesis by simp
      qed
      then have "post (case token p of
        None \<Rightarrow> Some (Inl (TypeError (js ''Cannot read property of undefined'')))
      | Some tok \<Rightarrow>
          if t_type tok = COMMA then
            then_do (parser_next p) (\<lambda>(keyToken, p1).
              if t_type keyToken \<noteq> STRING then unexpected (js ''Expected string'') p1
              else
                (case key_of keyToken of
                   Inl e \<Rightarrow> Some (Inl e)
                 | Inr key \<Rightarrow> then_do (parser_next p1) (\<lambda>(_, p2). more_keys' (keys @ [key]) p2)))
          else Some (Inr (keys, p))) (fails_well g0 loc) ?Q"
        by (simp add: tok)
      with 1(2) show "case r of Inl e \<Rightarrow> fails_well g0 loc e | Inr (ks, p') \<Rightarrow> good g0 loc p'"
        by (simp add: post_iff)
    qed
  qed
  with assms show ?thesis by (simp add: post_iff)
qed

lemma parse_loop_post:
  assumes "good g0 loc p"
  shows "post (parse_loop indent obj h p) (fails_well g0 loc) (\<lambda>(h', p'). good g0 loc p')"
proof -
  let ?Q = "\<lambda>(h' :: heap, p'). good g0 loc p'"
  have "good g0 loc p \<longrightarrow>
       (case r of Inl e \<Rightarrow> fails_well g0 loc e | Inr (h', p') \<Rightarrow> good g0 loc p')"
    if H: "parse_loop indent obj h p = Some r" for r
  proof (induction rule: parse_loop.raw_induct [OF _ H])
    case (1 parse_loop' indent obj h p r)
    have IH: "post (parse_loop' i ob hp q) (fails_well g0 loc) ?Q"
      if "good g0 loc q" for i ob hp q
      using 1(1) [of i ob hp q] that by (auto simp: post_iff)
    show ?case
    proof (intro impI)
      assume gp: "good g0 loc p"
      then obtain propToken where tok: "token p = Some propToken"
        by (auto dest: good_token)
      have nl: "post (then_do (parser_next p) (\<lambda>(nextToken, p1).
              if indent = 0 then parse_loop' indent obj h p1
              else if t_type nextToken \<noteq> INDENT then Some (Inr (h, p1))
              else if t_value nextToken = VNum indent then
                then_do (parser_next p1) (\<lambda>(_, p2). parse_loop' indent obj h p2)
              else Some (Inr (h, p1)))) (fails_well g0 loc) ?Q"
        if ty: "t_type propToken = NEWLINE"
      proof (rule post_next [OF gp tok])
        show "t_type propToken \<noteq> EOF" using ty by simp
      next
        fix nextToken p1
        assume t1: "token p1 = Some nextToken" and g1: "good g0 loc p1"
        have "post (then_do (parser_next p1) (\<lambda>(_, p2). parse_loop' indent obj h p2))
            (fails_well g0 loc) ?Q" if "t_type nextToken = INDENT"
          by (rule post_next [OF g1 t1]) (use that in simp, rule IH)
        with IH [OF g1] g1
        show "post (if indent = 0 then parse_loop' indent obj h p1
              else if t_type nextToken \<noteq> INDENT then Some (Inr (h, p1))
              else if t_value nextToken = VNum indent then
                then_do (parser_next p1) (\<lambda>(_, p2). parse_loop' indent obj h p2)
              else Some (Inr (h, p1))) (fails_well g0 loc) ?Q"
          by simp
      qed
      have ind: "post (if t_value propToken = VNum indent then
               then_do (parser_next p) (\<lambda>(_, p1). parse_loop' indent obj h p1)
             else Some (Inr (h, p))) (fails_well g0 loc) ?Q"
        if ty: "t_type propToken = INDENT"
      proof -
        have "post (then_do (parser_next p) (\<lambda>(_, p1). parse_loop' indent obj h p1))
            (fails_well g0 loc) ?Q"
          by (rule post_next [OF gp tok]) (use ty in simp, rule IH)
        with gp show ?thesis by simp
      qed
      have str: "post (case key_of propToken of
               Inl e \<Rightarrow> Some (Inl e)
             | Inr key \<Rightarrow>
                 then_do (parser_next p) (\<lambda>(_, p1).
                 then_do (more_keys [key] p1) (\<lambda>(keys, p2).
                   case token p2 of
                     None \<Rightarrow> Some (Inl (TypeError (js ''Cannot read property of undefined'')))
                   | Some valToken \<Rightarrow>
                       if t_type valToken = COLON then
                         then_do (parser_next p2) (\<lambda>(_, p3).
                         then_do (parse_loop' (indent + 1) (length h) (h @ [new_obj]) p3) (\<lambda>(h1, p4).
                           let h2 = assign_keys h1 obj keys (Ref (length h)) in
                           if indent \<noteq> 0 \<and> map_option t_type (token p4) \<noteq> Some INDENT
                           then Some (Inr (h2, p4))
                           else parse_loop' indent obj h2 p4))
                       else if isValidPropValueToken valToken then
                         then_do (parser_next p2) (\<lambda>(_, p3).
                           parse_loop' indent obj (assign_keys h obj keys (Prim (t_value valToken))) p3)
                       else unexpected (js ''Invalid value type'') p2))) (fails_well g0 loc) ?Q"
        if ty: "t_type propToken = STRING"
      proof (cases "key_of propToken")
        case (Inl e)
        with key_of_Inl [OF Inl] show ?thesis by simp
      next
        case (Inr key)
        have "post (then_do (parser_next p) (\<lambda>(_, p1).
                 then_do (more_keys [key] p1) (\<lambda>(keys, p2).
                   case token p2 of
                     None \<Rightarrow> Some (Inl (TypeError (js ''Cannot read property of undefined'')))
                   | Some valToken \<Rightarrow>
                       if t_type valToken = COLON then
                         then_do (parser_next p2) (\<lambda>(_, p3).
                         then_do (parse_loop' (indent + 1) (length h) (h @ [new_obj]) p3) (\<lambda>(h1, p4).
                           let h2 = assign_keys h1 obj keys (Ref (length h)) in
                           if indent \<noteq> 0 \<and> map_option t_type (token p4) \<noteq> Some INDENT
                           then Some (Inr (h2, p4))
                           else parse_loop' indent obj h2 p4))
                       else if isValidPropValueToken valToken then
                         then_do (parser_next p2) (\<lambda>(_, p3).
                           parse_loop' indent obj (assign_keys h obj keys (Prim (t_value valToken))) p3)
                       else unexpected (js ''Invalid value type'') p2))) (fails_well g0 loc) ?Q"
        proof (rule post_next [OF gp tok])
          show "t_type propToken \<noteq> EOF" using ty by simp
        next
          fix tok1 p1
          assume t1: "token p1 = Some tok1" and g1: "good g0 loc p1"
          show "post (then_do (more_keys [key] p1) (\<lambda>(keys, p2).
                   case token p2 of
                     None \<Rightarrow> Some (Inl (TypeError (js ''Cannot read property of undefined'')))
                   | Some valToken \<Rightarrow>
                       if t_type valToken = COLON then
                         then_do (parser_next p2) (\<lambda>(_, p3).
                         then_do (parse_loop' (indent + 1) (length h) (h @ [new_obj]) p3) (\<lambda>(h1, p4).
                           let h2 = assign_keys h1 obj keys (Ref (length h)) in
                           if indent \<noteq> 0 \<and> map_option t_type (token p4) \<noteq> Some INDENT
                           then Some (Inr (h2, p4))
                           else parse_loop' indent obj h2 p4))
                       else if isValidPropValueToken valToken then
                         then_do (parser_next p2) (\<lambda>(_, p3).
                           parse_loop' indent obj (assign_keys h obj keys (Prim (t_value valToken))) p3)
                       else unexpected (js ''Invalid value type'') p2)) (fails_well g0 loc) ?Q"
          proof (rule post_then_do_pair [OF more_keys_post [OF g1]])
            fix keys p2
            assume g2: "good g0 loc p2"
            then obtain valToken where t2: "token p2 = Some valToken"
              by (auto dest: good_token)
            have colon: "post (then_do (parser_next p2) (\<lambda>(_, p3).
                         then_do (parse_loop' (indent + 1) (length h) (h @ [new_obj]) p3) (\<lambda>(h1, p4).
                           let h2 = assign_keys h1 obj keys (Ref (length h)) in
                           if indent \<noteq> 0 \<and> map_option t_type (token p4) \<noteq> Some INDENT
                           then Some (Inr (h2, p4))
                           else parse_loop' indent obj h2 p4))) (fails_well g0 loc) ?Q"
              if c: "t_type valToken = COLON"
            proof (rule post_next [OF g2 t2])
              show "t_type valToken \<noteq> EOF" using c by simp
            next
              fix tok3 p3
              assume t3: "token p3 = Some tok3" and g3: "good g0 loc p3"
              show "post (then_do (parse_loop' (indent + 1) (length h) (h @ [new_obj]) p3) (\<lambda>(h1, p4).
                           let h2 = assign_keys h1 obj keys (Ref (length h)) in
                           if indent \<noteq> 0 \<and> map_option t_type (token p4) \<noteq> Some INDENT
                           then Some (Inr (h2, p4))
                           else parse_loop' indent obj h2 p4)) (fails_well g0 loc) ?Q"
              proof (rule post_then_do_pair [OF IH [OF g3]])
                fix h1 p4
                assume g4: "good g0 loc p4"
                with IH [OF g4]
                show "post (let h2 = assign_keys h1 obj keys (Ref (length h)) in
                           if indent \<noteq> 0 \<and> map_option t_type (token p4) \<noteq> Some INDENT
                           then Some (Inr (h2, p4))
                           else parse_loop' indent obj h2 p4) (fails_well g0 loc) ?Q"
                  by (simp add: Let_def)
              qed
            qed
            have leaf: "post (then_do (parser_next p2) (\<lambda>(_, p3).
                           parse_loop' indent obj (assign_keys h obj keys (Prim (t_value valToken))) p3))
                  (fails_well g0 loc) ?Q"
              if v: "isValidPropValueToken valToken"
            proof (rule post_next [OF g2 t2])
              show "t_type valToken \<noteq> EOF"
                using v by (auto simp: isValidPropValueToken_def)
            qed (rule IH)
            have bad: "post (unexpected (js ''Invalid value type'') p2) (fails_well g0 loc) ?Q"
              if "t_type valToken \<noteq> COLON" "\<not> isValidPropValueToken valToken"
              using that
              by (intro post_unexpected [OF g2 t2])
                 (auto simp: unexpected_token_def isValidPropValueToken_def)
            from colon leaf bad
            show "post (case token p2 of
                     None \<Rightarrow> Some (Inl (TypeError (js ''Cannot read property of undefined'')))
                   | Some valToken \<Rightarrow>
                       if t_type valToken = COLON then
                         then_do (parser_next p2) (\<lambda>(_, p3).
                         then_do (parse_loop' (indent + 1) (length h) (h @ [new_obj]) p3) (\<lambda>(h1, p4).
                           let h2 = assign_keys h1 obj keys (Ref (length h)) in
                           if indent \<noteq> 0 \<and> map_option t_type (token p4) \<noteq> Some INDENT
                           then Some (Inr (h2, p4))
                           else parse_loop' indent obj h2 p4))
                       else if isValidPropValueToken valToken then
                         then_do (parser_next p2) (\<lambda>(_, p3).
                           parse_loop' indent obj (assign_keys h obj keys (Prim (t_value valToken))) p3)
                       else unexpected (js ''Invalid value type'') p2) (fails_well g0 loc) ?Q"
              by (simp add: t2)
          qed
        qed
        with Inr show ?thesis by simp
      qed
      have unk: "post (unexpected (js ''Unknown token'') p) (fails_well g0 loc) ?Q"
        if "t_type propToken \<notin> {NEWLINE, INDENT, EOF, STRING}"
        using that by (intro post_unexpected [OF gp tok]) (auto simp: unexpected_token_def)
      from 1(2) have "post (Some r) (fails_well g0 loc) ?Q"
        using nl ind str unk gp
        by (auto simp: tok split: if_split_asm)
      then show "case r of Inl e \<Rightarrow> fails_well g0 loc e | Inr (h', p') \<Rightarrow> good g0 loc p'"
        by (simp add: post_iff)
    qed
  qed
  with assms show ?thesis by (simp add: post_iff)
qed

lemma parse_post:
  "post (parse str loc)
     (fails_well (tokenise (stripBOM str)) (case loc of None \<Rightarrow> js ''lockfile'' | Some l \<Rightarrow> l))
     (\<lambda>_. True)"
proof -
  let ?g0 = "tokenise (stripBOM str)"
  let ?loc = "case loc of None \<Rightarrow> js ''lockfile'' | Some l \<Rightarrow> l"
  let ?p0 = "new_Parser (stripBOM str) loc"
  have p0: "tokens ?p0 = ?g0" "fileLoc ?p0 = ?loc" "\<not> finished (tokens ?p0)"
    by (simp_all add: new_Parser_def tokenise_def)
  have first: "post (parser_next ?p0) (fails_well ?g0 ?loc) (\<lambda>(tok, p). good ?g0 ?loc p)"
  proof (rule post_weaken [OF parser_next_post])
    fix e
    assume "\<not> is_SyntaxError e \<and> (\<not> finished (tokens ?p0) \<longrightarrow> \<not> is_Error e)"
    with p0(3) show "fails_well ?g0 ?loc e"
      by (auto simp: fails_well_def is_SyntaxError_def)
  next
    fix x :: "token \<times> parser"
    assume "case x of (tok, p') \<Rightarrow> token p' = Some tok \<and> fileLoc p' = fileLoc ?p0
        \<and> (\<exists>ts. yields (tokens ?p0) ts (tokens p') \<and> ts \<noteq> [] \<and> last ts = tok)
        \<and> (\<not> finished (tokens ?p0) \<longrightarrow> finished (tokens p') \<longrightarrow> t_type tok = EOF)"
    with p0 show "case x of (tok, p) \<Rightarrow> good ?g0 ?loc p"
      by (cases x) (auto simp: good_def live_def)
  qed
  have "post (then_do (parser_next ?p0) (\<lambda>(_, p).
      then_do (parse_loop 0 0 [new_obj] p) (\<lambda>(h, _). Some (Inr (h, 0::nat)))))
     (fails_well ?g0 ?loc) (\<lambda>_. True)"
  proof (rule post_then_do_pair [OF first])
    fix tok :: token and p
    assume "good ?g0 ?loc p"
    then have pl: "post (parse_loop 0 0 [new_obj] p) (fails_well ?g0 ?loc)
        (\<lambda>(h', p'). good ?g0 ?loc p')"
      by (rule parse_loop_post)
    show "post (then_do (parse_loop 0 0 [new_obj] p) (\<lambda>(h, _). Some (Inr (h, 0::nat))))
        (fails_well ?g0 ?loc) (\<lambda>_. True)"
      by (rule post_then_do [OF pl]) (simp split: prod.split)
  qed
  then show ?thesis by (simp add: parse_def Let_def)
qed

lemma tokenise_step_no_EOF:
  "tokenise_step s = Some (Inr (ys, s')) \<Longrightarrow> \<forall>t\<in>set ys. t_type t \<noteq> EOF"
  by (auto simp: tokenise_step_def advance_def buildToken_def Let_def
      split: if_split_asm option.split_asm prod.split_asm)

lemma gen_next_reachable:
  assumes "gen_next g = Some (Inr (Some t, g'))" and "reachable g"
  shows "reachable g' \<and> (t_type t = EOF \<longrightarrow> finished g' \<and> pending g' = [])"
proof -
  have "reachable g \<longrightarrow> (case r of Inl e \<Rightarrow> True | Inr (item, g') \<Rightarrow>
      (case item of None \<Rightarrow> True | Some t \<Rightarrow>
         reachable g' \<and> (t_type t = EOF \<longrightarrow> finished g' \<and> pending g' = [])))"
    if H: "gen_next g = Some r" for r
  proof (induction rule: gen_next.raw_induct [OF _ H])
    case (1 gen_next' g r)
    note IH = 1(1) and body = 1(2)
    show ?case
    proof (intro impI)
      assume R: "reachable g"
      show "case r of Inl e \<Rightarrow> True | Inr (item, g') \<Rightarrow>
        (case item of None \<Rightarrow> True | Some t \<Rightarrow>
           reachable g' \<and> (t_type t = EOF \<longrightarrow> finished g' \<and> pending g' = []))"
      proof (cases "pending g")
        case (Cons t ts)
        with body R show ?thesis by (auto simp: reachable_def)
      next
        case Nil
        show ?thesis
        proof (cases "finished g \<or> input (scan g) = []")
          case True
          with body Nil R show ?thesis
            by (auto simp: buildToken_def reachable_def split: if_splits)
        next
          case False
          with body Nil have "then_do (tokenise_step (scan g)) (\<lambda>(yielded, s').
              case yielded of [] \<Rightarrow> gen_next' (g\<lparr>scan := s'\<rparr>)
              | t # ts \<Rightarrow> Some (Inr (Some t, g\<lparr>scan := s', pending := ts\<rparr>))) = Some r"
            by simp
          then consider (thr) e where "r = Inl e"
            | (ok) ys s' where "tokenise_step (scan g) = Some (Inr (ys, s'))"
                "(case ys of [] \<Rightarrow> gen_next' (g\<lparr>scan := s'\<rparr>)
                  | t # ts \<Rightarrow> Some (Inr (Some t, g\<lparr>scan := s', pending := ts\<rparr>))) = Some r"
            by (auto simp: then_do_eq_Some)
          then show ?thesis
          proof cases
            case thr
            then show ?thesis by simp
          next
            case ok
            note ne = tokenise_step_no_EOF [OF ok(1)]
            show ?thesis
            proof (cases ys)
              case Nil2: Nil
              with ok have "gen_next' (g\<lparr>scan := s'\<rparr>) = Some r" by simp
              from IH [OF this] R Nil show ?thesis by (simp add: reachable_def)
            next
              case (Cons t ts)
              with ok ne False show ?thesis by (auto simp: reachable_def)
            qed
          qed
        qed
      qed
    qed
  qed
  from this [OF assms(1)] assms(2) show ?thesis by simp
qed

lemma yields_reachable:
  "yields g ts g' \<Longrightarrow> reachable g \<Longrightarrow>
     reachable g' \<and> (ts \<noteq> [] \<and> t_type (last ts) = EOF \<longrightarrow> finished g' \<and> pending g' = [])"
proof (induction rule: yields.induct)
  case (yields_Nil g)
  then show ?case by simp
next
  case (yields_Cons g t g1 ts g')
  from gen_next_reachable [OF yields_Cons(1,4)]
  have r1: "reachable g1" and e: "t_type t = EOF \<longrightarrow> finished g1 \<and> pending g1 = []" by simp_all
  from yields_Cons(3) [OF r1] have IH: "reachable g'"
    "ts \<noteq> [] \<and> t_type (last ts) = EOF \<longrightarrow> finished g' \<and> pending g' = []" by simp_all
  show ?case
  proof (cases ts)
    case Nil
    with yields_Cons(2) have "g' = g1" by (auto elim: yields.cases)
    with Nil r1 e show ?thesis by simp
  next
    case (Cons a list)
    with IH show ?thesis by simp
  qed
qed

lemma parser_next_exhausted:
  assumes "finished g" and "pending g = []"
  shows "parser_next (p\<lparr>tokens := g\<rparr>) = Some (Inl (Error (js ''No more tokens'')))"
  using assms by (subst parser_next.simps, subst gen_next.simps) simp











lemma name_start_facts:
  assumes "is_name_start c"
  shows "c \<noteq> NL" "c \<noteq> HASH" "c \<noteq> SP" "c \<noteq> DQ" "\<not> is_digit c" "c \<noteq> COLON_C" "c \<noteq> COMMA_C"
  using assms unfolding is_name_start_def is_digit_def
  by (auto simp: word_le_nat_alt)

lemma gen_next_unfold:
  "input s \<noteq> [] \<Longrightarrow>
   gen_next (fresh s) =
     then_do (tokenise_step s) (\<lambda>(yielded, s').
       case yielded of
         [] \<Rightarrow> gen_next (fresh s')
       | t # ts \<Rightarrow> Some (Inr (Some t, (fresh s')\<lparr>pending := ts\<rparr>)))"
  by (subst gen_next.simps) (simp add: fresh_def split_def cong: list.case_cong)

lemma scan_newline:
  "gen_next (fresh (sc (NL # r) n l c)) =
     Some (Inr (Some (tk (Suc l) 0 NEWLINE VUndefined), fresh (sc r True (Suc l) 1)))"
  by (subst gen_next_unfold)
     (simp_all add: sc_def tk_def fresh_def tokenise_step_def char_at_def advance_def
        buildToken_def Let_def)

lemma scan_colon:
  "gen_next (fresh (sc (COLON_C # r) n l c)) =
     Some (Inr (Some (tk l c COLON VUndefined), fresh (sc r False l (Suc c))))"
  by (subst gen_next_unfold)
     (simp_all add: sc_def tk_def fresh_def tokenise_step_def char_at_def advance_def
        buildToken_def Let_def is_digit_def starts_with_def js_def)

lemma scan_comma:
  "gen_next (fresh (sc (COMMA_C # r) n l c)) =
     Some (Inr (Some (tk l c COMMA VUndefined), fresh (sc r False l (Suc c))))"
  by (subst gen_next_unfold)
     (simp_all add: sc_def tk_def fresh_def tokenise_step_def char_at_def advance_def
        buildToken_def Let_def is_digit_def starts_with_def js_def)

lemma scan_space:
  "gen_next (fresh (sc (SP # r) False l c)) = gen_next (fresh (sc r False l (Suc c)))"
  by (subst gen_next_unfold)
     (simp_all add: sc_def tk_def fresh_def tokenise_step_def char_at_def advance_def
        buildToken_def Let_def)


lemma takeWhile_spaces:
  "r = [] \<or> hd r \<noteq> SP \<Longrightarrow> takeWhile (\<lambda>c. c = SP) (replicate n SP @ r) = replicate n SP"
  by (induction n) (auto simp: takeWhile_eq_Nil_iff neq_Nil_conv)

lemma scan_indent:
  assumes "0 < n" and "even n" and "r = [] \<or> hd r \<noteq> SP"
  shows "gen_next (fresh (sc (replicate n SP @ r) True l c)) =
     Some (Inr (Some (tk l c INDENT (VNum (n div 2))), fresh (sc r False l (c + n))))"
proof -
  obtain m where n: "n = Suc m" using assms(1) by (cases n) auto
  have tw: "takeWhile (\<lambda>c. c = SP) (replicate n SP @ r) = replicate n SP"
    using assms(3) by (rule takeWhile_spaces)
  show ?thesis
    apply (subst gen_next_unfold)
     apply (simp add: sc_def n)
    using assms(2) tw
    apply (simp add: sc_def tk_def fresh_def tokenise_step_def char_at_def advance_def
        buildToken_def Let_def n)
    done
qed

lemma scan_odd_indent:
  assumes "odd n" and "r = [] \<or> hd r \<noteq> SP"
  shows "gen_next (fresh (sc (replicate n SP @ r) True l c)) =
     Some (Inl (TypeError (js ''Invalid number of spaces'')))"
proof -
  obtain m where n: "n = Suc m" using assms(1) by (cases n) auto
  have tw: "takeWhile (\<lambda>c. c = SP) (replicate n SP @ r) = replicate n SP"
    using assms(2) by (rule takeWhile_spaces)
  show ?thesis
    apply (subst gen_next_unfold)
     apply (simp add: sc_def n)
    using assms(1) tw
    apply (simp add: sc_def tk_def fresh_def tokenise_step_def char_at_def advance_def
        buildToken_def Let_def n)
    done
qed

lemma takeWhile_name:
  "list_all (\<lambda>c. \<not> is_name_end c) w \<Longrightarrow> r = [] \<or> is_name_end (hd r) \<Longrightarrow>
   takeWhile (\<lambda>c. \<not> is_name_end c) (w @ r) = w"
  by (induction w) (auto simp: takeWhile_eq_Nil_iff neq_Nil_conv)

lemma starts_with_bare:
  assumes p: "list_all (\<lambda>c. \<not> is_name_end c) p"
    and r: "r = [] \<or> is_name_end (hd r)" and s: "starts_with p (w @ r)"
  shows "starts_with p w"
proof (cases "length p \<le> length w")
  case True
  with s show ?thesis by (simp add: starts_with_def)
next
  case False
  from s have eq: "take (length p) w @ take (length p - length w) r = p"
    by (simp add: starts_with_def)
  from False have tw: "take (length p) w = w" by simp
  have "take (length p - length w) r \<noteq> []"
  proof
    assume "take (length p - length w) r = []"
    with eq tw have "p = w" by simp
    with False show False by simp
  qed
  then obtain a r' where ar: "r = a # r'" by (cases r) auto
  from False obtain k where k: "length p - length w = Suc k" by (cases "length p - length w") auto
  from eq tw ar k have "a \<in> set p" by (metis append_Cons in_set_conv_decomp take_Suc_Cons)
  with p have "\<not> is_name_end a" by (simp add: list_all_iff)
  with r ar show ?thesis by simp
qed

lemma scan_bare:
  assumes "bare_ok w" and "r = [] \<or> is_name_end (hd r)"
  shows "gen_next (fresh (sc (w @ r) n l c)) =
     Some (Inr (Some (tk l c STRING (VStr w)), fresh (sc r False l (c + length w))))"
proof -
  from assms(1) obtain a w' where w: "w = a # w'" and a: "is_name_start a"
    and ne: "list_all (\<lambda>c. \<not> is_name_end c) w"
    and nt: "\<not> starts_with (js ''true'') w" and nf: "\<not> starts_with (js ''false'') w"
    by (cases w) (auto simp: bare_ok_def)
  note f = name_start_facts [OF a]
  have tw: "takeWhile (\<lambda>c. \<not> is_name_end c) (w @ r) = w"
    using ne assms(2) by (rule takeWhile_name)
  have nt': "\<not> starts_with (js ''true'') (w @ r)"
    using starts_with_bare [OF _ assms(2), of "js ''true''" w] nt
    by (auto simp: js_def is_name_end_def)
  have nf': "\<not> starts_with (js ''false'') (w @ r)"
    using starts_with_bare [OF _ assms(2), of "js ''false''" w] nf
    by (auto simp: js_def is_name_end_def)
  show ?thesis
    apply (subst gen_next_unfold)
     apply (simp add: sc_def w)
    using f a tw nt' nf'
    apply (simp add: sc_def tk_def fresh_def tokenise_step_def char_at_def advance_def
        buildToken_def Let_def w)
    done
qed

lemma plain_char_facts:
  assumes "plain_char c"
  shows "c \<noteq> DQ" "c \<noteq> BS" "\<not> c < 0x20"
  using assms by (auto simp: plain_char_def)

lemma json_chars_plain:
  "list_all plain_char w \<Longrightarrow> json_chars (w @ DQ # r) = Some (w, r)"
  by (induction w) (auto simp: plain_char_def)

lemma json_parse_plain:
  "list_all plain_char w \<Longrightarrow> json_parse (DQ # w @ [DQ]) = Some w"
  by (simp add: json_parse_def json_chars_plain)

lemma quote_loop_plain_aux:
  assumes w: "list_all plain_char w" and inp: "inp = DQ # w @ DQ # r"
  shows "i \<le> Suc (length w) \<Longrightarrow> quote_loop inp i (take i inp) = Some (DQ # w @ [DQ])"
proof (induction "Suc (length w) - i" arbitrary: i)
  case 0
  then have i: "i = Suc (length w)" by simp
  have at: "char_at inp (Suc (length w)) = Some DQ"
    by (simp add: char_at_def inp nth_append)
  have prev: "char_at inp (length w) \<noteq> Some BS"
  proof (cases w rule: rev_cases)
    case Nil
    then show ?thesis by (simp add: char_at_def inp)
  next
    case (snoc ys y)
    with w have "y \<noteq> BS" by (simp add: plain_char_def)
    with snoc show ?thesis by (simp add: char_at_def inp nth_append)
  qed
  have tk: "take (Suc (length w)) inp = DQ # w" by (simp add: inp)
  show ?case unfolding i
    by (subst quote_loop.simps) (simp add: at prev isEscaped_def tk append_char_def)
next
  case (Suc n)
  then have i: "i \<le> length w" by simp
  have lt: "i < length inp" using i by (simp add: inp)
  have notq: "\<not> (0 < i \<and> char_at inp i = Some DQ \<and> \<not> isEscaped inp i)"
  proof (cases i)
    case 0
    then show ?thesis by simp
  next
    case (Suc m)
    with i have "m < length w" by simp
    with w have "plain_char (w ! m)" by (simp add: list_all_length)
    then have "w ! m \<noteq> DQ" by (simp add: plain_char_def)
    with Suc \<open>m < length w\<close> show ?thesis by (simp add: char_at_def inp nth_append)
  qed
  have step: "append_char (take i inp) (char_at inp i) = take (Suc i) inp"
    using lt by (simp add: char_at_def append_char_def take_Suc_conv_app_nth)
  have "quote_loop inp i (take i inp) = quote_loop inp (Suc i) (take (Suc i) inp)"
    using notq by (subst quote_loop.simps) (auto simp: step)
  also have "\<dots> = Some (DQ # w @ [DQ])"
    using Suc(1) [of "Suc i"] Suc(2) i by simp
  finally show ?case .
qed

lemma quote_loop_plain:
  "list_all plain_char w \<Longrightarrow> quote_loop (DQ # w @ DQ # r) 0 [] = Some (DQ # w @ [DQ])"
  using quote_loop_plain_aux [of w "DQ # w @ DQ # r" r 0] by simp

lemma scan_quoted:
  assumes "list_all plain_char w"
  shows "gen_next (fresh (sc (DQ # w @ DQ # r) n l c)) =
     Some (Inr (Some (tk l c STRING (VStr w)), fresh (sc r False l (c + (length w + 2)))))"
  apply (subst gen_next_unfold)
   apply (simp add: sc_def)
  using quote_loop_plain [OF assms, of r] json_parse_plain [OF assms]
  apply (simp add: sc_def tk_def fresh_def tokenise_step_def char_at_def advance_def
      buildToken_def Let_def)
  done

lemma scan_word:
  assumes "word_ok v" and "r = [] \<or> is_name_end (hd r)"
  shows "gen_next (fresh (sc (render_word v @ r) n l c)) =
     Some (Inr (Some (tk l c STRING (VStr (name_of v))),
                fresh (sc r False l (c + length (render_word v)))))"
proof (cases v)
  case (Bare w)
  with assms scan_bare [of w r n l c] show ?thesis by simp
next
  case (Quoted w)
  with assms scan_quoted [of w r n l c] show ?thesis by simp
qed



text \<open>Pulls of the tree builder.\<close>

lemma parser_next_token:
  assumes "gen_next (fresh s) = Some (Inr (Some t, fresh s'))" and "t_type t \<noteq> COMMENT"
  shows "parser_next (pst loc cs x s) = Some (Inr (t, pst loc cs (Some t) s'))"
  using assms by (subst parser_next.simps) (simp add: pst_def)

lemma parser_next_throw:
  assumes "gen_next (fresh s) = Some (Inl e)"
  shows "parser_next (pst loc cs x s) = Some (Inl e)"
  using assms by (subst parser_next.simps) (simp add: pst_def)

lemma parser_next_pst:
  "parser_next (pst loc cs x s) =
     then_do (gen_next (fresh s)) (\<lambda>(item, g).
       case item of
         None \<Rightarrow> Some (Inl (Error (js ''No more tokens'')))
       | Some tok \<Rightarrow>
           if t_type tok = COMMENT then
             (case onComment tok \<lparr>fileLoc = loc, token = x, tokens = g, comments = cs\<rparr> of
                Inl e \<Rightarrow> Some (Inl e)
              | Inr p' \<Rightarrow> parser_next p')
           else Some (Inr (tok, \<lparr>fileLoc = loc, token = Some tok, tokens = g, comments = cs\<rparr>)))"
  by (subst parser_next.simps)
     (simp add: pst_def split_def cong: option.case_cong if_cong sum.case_cong)

lemma parser_next_skip:
  assumes "gen_next (fresh s) = gen_next (fresh s')"
  shows "parser_next (pst loc cs x s) = parser_next (pst loc cs x s')"
  by (simp only: parser_next_pst assms)

lemma more_keys_done:
  assumes "token p = Some t" and "t_type t \<noteq> COMMA"
  shows "more_keys acc p = Some (Inr (acc, p))"
  using assms by (subst more_keys.simps) simp

lemma more_keys_comma:
  assumes "token p = Some t" and "t_type t = COMMA"
  shows "more_keys acc p =
     then_do (parser_next p) (\<lambda>(keyToken, p1).
       if t_type keyToken \<noteq> STRING then unexpected (js ''Expected string'') p1
       else
         (case key_of keyToken of
            Inl e \<Rightarrow> Some (Inl e)
          | Inr key \<Rightarrow> then_do (parser_next p1) (\<lambda>(_, p2). more_keys (acc @ [key]) p2)))"
  using assms by (subst more_keys.simps) simp

lemma parse_loop_newline:
  assumes "token p = Some t" and "t_type t = NEWLINE"
  shows "parse_loop indent obj h p =
     then_do (parser_next p) (\<lambda>(nextToken, p1).
       if indent = 0 then parse_loop indent obj h p1
       else if t_type nextToken \<noteq> INDENT then Some (Inr (h, p1))
       else if t_value nextToken = VNum indent then
         then_do (parser_next p1) (\<lambda>(_, p2). parse_loop indent obj h p2)
       else Some (Inr (h, p1)))"
  using assms by (subst parse_loop.simps) simp

lemma parse_loop_indent:
  assumes "token p = Some t" and "t_type t = INDENT"
  shows "parse_loop indent obj h p =
     (if t_value t = VNum indent then
        then_do (parser_next p) (\<lambda>(_, p1). parse_loop indent obj h p1)
      else Some (Inr (h, p)))"
  using assms by (subst parse_loop.simps) simp


lemma parse_loop_string:
  assumes "token p = Some t" and "t_type t = STRING" and "t_value t = VStr key" and "key \<noteq> []"
  shows "parse_loop indent obj h p =
     then_do (parser_next p) (\<lambda>(_, p1).
     then_do (more_keys [key] p1) (\<lambda>(keys, p2).
       case token p2 of
         None \<Rightarrow> Some (Inl (TypeError (js ''Cannot read property of undefined'')))
       | Some valToken \<Rightarrow>
           if t_type valToken = COLON then
             then_do (parser_next p2) (\<lambda>(_, p3).
             then_do (parse_loop (indent + 1) (length h) (h @ [new_obj]) p3) (\<lambda>(h1, p4).
               let h2 = assign_keys h1 obj keys (Ref (length h)) in
               if indent \<noteq> 0 \<and> map_option t_type (token p4) \<noteq> Some INDENT
               then Some (Inr (h2, p4))
               else parse_loop indent obj h2 p4))
           else if isValidPropValueToken valToken then
             then_do (parser_next p2) (\<lambda>(_, p3).
               parse_loop indent obj (assign_keys h obj keys (Prim (t_value valToken))) p3)
           else unexpected (js ''Invalid value type'') p2))"
  using assms by (subst parse_loop.simps) (simp add: key_of_def)

lemma parse_loop_other:
  assumes "token p = Some t" and "t_type t \<notin> {NEWLINE, INDENT, EOF, STRING}"
  shows "parse_loop indent obj h p = unexpected (js ''Unknown token'') p"
  using assms by (subst parse_loop.simps) simp

lemma then_do_assoc:
  "then_do (then_do m (\<lambda>(a, b). f a b)) g = then_do m (\<lambda>(a, b). then_do (f a b) g)"
  by (simp add: then_do_def split: option.splits sum.splits prod.splits)

lemma pull_newline:
  "parser_next (pst loc cs x (sc (NL # r) n l c)) =
     Some (Inr (tk (Suc l) 0 NEWLINE VUndefined,
                pst loc cs (Some (tk (Suc l) 0 NEWLINE VUndefined)) (sc r True (Suc l) 1)))"
  by (rule parser_next_token [OF scan_newline]) (simp add: tk_def)

lemma pull_colon:
  "parser_next (pst loc cs x (sc (COLON_C # r) n l c)) =
     Some (Inr (tk l c COLON VUndefined,
                pst loc cs (Some (tk l c COLON VUndefined)) (sc r False l (Suc c))))"
  by (rule parser_next_token [OF scan_colon]) (simp add: tk_def)

lemma pull_comma:
  "parser_next (pst loc cs x (sc (COMMA_C # r) n l c)) =
     Some (Inr (tk l c COMMA VUndefined,
                pst loc cs (Some (tk l c COMMA VUndefined)) (sc r False l (Suc c))))"
  by (rule parser_next_token [OF scan_comma]) (simp add: tk_def)

lemma pull_word:
  assumes "word_ok v" and "r = [] \<or> is_name_end (hd r)"
  shows "parser_next (pst loc cs x (sc (render_word v @ r) n l c)) =
     Some (Inr (tk l c STRING (VStr (name_of v)),
                pst loc cs (Some (tk l c STRING (VStr (name_of v))))
                  (sc r False l (c + length (render_word v)))))"
  by (rule parser_next_token [OF scan_word [OF assms]]) (simp add: tk_def)

lemma pull_space_word:
  assumes "word_ok v" and "r = [] \<or> is_name_end (hd r)"
  shows "parser_next (pst loc cs x (sc (SP # render_word v @ r) False l c)) =
     Some (Inr (tk l (Suc c) STRING (VStr (name_of v)),
                pst loc cs (Some (tk l (Suc c) STRING (VStr (name_of v))))
                  (sc r False l (Suc c + length (render_word v)))))"
  using parser_next_skip [OF scan_space, of loc cs x "render_word v @ r" l c]
    pull_word [OF assms, of loc cs x False l "Suc c"]
  by simp

lemma pull_indent:
  assumes "0 < d" and "r = [] \<or> hd r \<noteq> SP"
  shows "parser_next (pst loc cs x (sc (replicate (2 * d) SP @ r) True l c)) =
     Some (Inr (tk l c INDENT (VNum d),
                pst loc cs (Some (tk l c INDENT (VNum d))) (sc r False l (c + 2 * d))))"
  using parser_next_token [OF scan_indent [of "2 * d" r l c], of loc cs x] assms
  by (simp add: tk_def)


lemma render_word_hd:
  assumes "word_ok v" and "name_of v \<noteq> [] \<or> (\<exists>w. v = Quoted w)"
  shows "render_word v \<noteq> []" "hd (render_word v @ r) \<noteq> SP"
proof -
  show "render_word v \<noteq> []" using assms by (cases v) (auto simp: bare_ok_def)
  show "hd (render_word v @ r) \<noteq> SP"
  proof (cases v)
    case (Bare w)
    with assms(1) obtain a w' where "w = a # w'" "is_name_start a"
      by (cases w) (auto simp: bare_ok_def)
    with Bare name_start_facts(3) [of a] show ?thesis by simp
  next
    case (Quoted w)
    then show ?thesis by simp
  qed
qed

lemma render_more_hd:
  "ks \<noteq> [] \<Longrightarrow> hd (render_more ks @ r) = COMMA_C"
  by (cases ks) (simp_all add: render_more_def)

lemma render_more_Cons:
  "render_more (k # ks) = COMMA_C # SP # render_word k @ render_more ks"
  by (simp add: render_more_def)

lemma render_more_Nil: "render_more [] = []"
  by (simp add: render_more_def)

text \<open>The further keys of an alias list.\<close>

lemma aliases:
  assumes "list_all key_ok ks" and "r \<noteq> []" and "hd r = COLON_C \<or> hd r = SP"
  shows "\<exists>x'. then_do (parser_next (pst loc cs x (sc (render_more ks @ r) False l c)))
            (\<lambda>(_, p1). then_do (more_keys acc p1) K)
       = then_do (parser_next (pst loc cs x' (sc r False l (c + length (render_more ks)))))
            (\<lambda>(_, p1). then_do (more_keys (acc @ map name_of ks) p1) K)"
  using assms(1)
proof (induction ks arbitrary: acc x c)
  case Nil
  show ?case by (rule exI [of _ x]) (simp add: render_more_Nil)
next
  case (Cons k ks)
  from Cons.prems have ks: "list_all key_ok ks" by simp
  from Cons.prems have k: "word_ok k" "name_of k \<noteq> []" by (simp_all add: key_ok_def)
  let ?r1 = "render_more ks @ r"
  have r1: "?r1 = [] \<or> is_name_end (hd ?r1)"
  proof (cases ks)
    case Nil
    with assms(2,3) show ?thesis by (auto simp: render_more_def is_name_end_def)
  next
    case (Cons a list)
    then show ?thesis using render_more_hd [of ks r] by (simp add: is_name_end_def)
  qed
  let ?ct = "tk l c COMMA VUndefined"
  let ?kt = "tk l (Suc (Suc c)) STRING (VStr (name_of k))"
  let ?q1 = "pst loc cs (Some ?ct) (sc (SP # render_word k @ ?r1) False l (Suc c))"
  let ?q2 = "pst loc cs (Some ?kt) (sc ?r1 False l (Suc (Suc c) + length (render_word k)))"
  have 1: "parser_next (pst loc cs x (sc (render_more (k # ks) @ r) False l c))
      = Some (Inr (?ct, ?q1))"
    by (simp add: render_more_Cons pull_comma)
  have 2: "parser_next ?q1 = Some (Inr (?kt, ?q2))"
    using pull_space_word [OF k(1) r1] by simp
  have 3: "more_keys acc ?q1 = then_do (parser_next ?q2) (\<lambda>(_, p2). more_keys (acc @ [name_of k]) p2)"
    by (subst more_keys_comma [of _ ?ct])
       (simp_all add: pst_def tk_def 2 [unfolded pst_def tk_def] key_of_def k(2))
  from Cons.IH [OF ks, of "Some ?kt" "Suc (Suc c) + length (render_word k)" "acc @ [name_of k]"]
  obtain x' where 4: "then_do (parser_next ?q2)
            (\<lambda>(_, p1). then_do (more_keys (acc @ [name_of k]) p1) K)
       = then_do (parser_next (pst loc cs x' (sc r False l
              (Suc (Suc c) + length (render_word k) + length (render_more ks)))))
            (\<lambda>(_, p1). then_do (more_keys ((acc @ [name_of k]) @ map name_of ks) p1) K)"
    by blast
  have "then_do (parser_next (pst loc cs x (sc (render_more (k # ks) @ r) False l c)))
            (\<lambda>(_, p1). then_do (more_keys acc p1) K)
      = then_do (then_do (parser_next ?q2) (\<lambda>(_, p2). more_keys (acc @ [name_of k]) p2)) K"
    by (simp add: 1 3)
  also have "\<dots> = then_do (parser_next ?q2)
            (\<lambda>(_, p1). then_do (more_keys (acc @ [name_of k]) p1) K)"
    by (rule then_do_assoc)
  also note 4
  finally show ?case
    by (intro exI [of _ x']) (simp add: render_more_Cons add.assoc)
qed

lemma parse_loop_key:
  assumes "key \<noteq> []"
  shows "parse_loop indent obj h (pst loc cs (Some (tk l c STRING (VStr key))) s) =
     then_do (parser_next (pst loc cs (Some (tk l c STRING (VStr key))) s)) (\<lambda>(_, p1).
     then_do (more_keys [key] p1) (after_keys indent obj h))"
  unfolding after_keys_def after_block_def
  by (subst parse_loop_string [of _ "tk l c STRING (VStr key)" key])
     (simp_all add: assms pst_def tk_def)

lemma after_keys_value:
  assumes "token p = Some t" and "t_type t = STRING"
  shows "after_keys indent obj h (keys, p) =
     then_do (parser_next p) (\<lambda>(_, p3).
       parse_loop indent obj (assign_keys h obj keys (Prim (t_value t))) p3)"
  using assms by (simp add: after_keys_def isValidPropValueToken_def)

lemma after_keys_colon:
  assumes "token p = Some t" and "t_type t = COLON"
  shows "after_keys indent obj h (keys, p) =
     then_do (parser_next p) (\<lambda>(_, p3).
       then_do (parse_loop (Suc indent) (length h) (h @ [new_obj]) p3)
         (after_block indent obj keys (length h)))"
  using assms by (simp add: after_keys_def)

text \<open>An entry, from its first key on.\<close>

lemma leaf_from_key:
  assumes k: "key_ok k" and ks: "list_all key_ok ks" and v: "word_ok v"
  shows "parse_loop d obj h
      (pst loc cs (Some (tk l c0 STRING (VStr (name_of k))))
         (sc (render_more ks @ SP # render_word v @ NL # rest) False l c))
    = parse_loop d obj
        (assign_keys h obj (name_of k # map name_of ks) (Prim (VStr (name_of v))))
        (at_line loc cs (Suc l) rest)"
proof -
  let ?keys = "name_of k # map name_of ks"
  from k have kn: "name_of k \<noteq> []" by (simp add: key_ok_def)
  from aliases [OF ks, of "SP # render_word v @ NL # rest" loc cs
      "Some (tk l c0 STRING (VStr (name_of k)))" l c "[name_of k]" "after_keys d obj h"]
  obtain x' where al: "then_do (parser_next (pst loc cs (Some (tk l c0 STRING (VStr (name_of k))))
          (sc (render_more ks @ SP # render_word v @ NL # rest) False l c)))
        (\<lambda>(_, p1). then_do (more_keys [name_of k] p1) (after_keys d obj h))
      = then_do (parser_next (pst loc cs x'
          (sc (SP # render_word v @ NL # rest) False l (c + length (render_more ks)))))
        (\<lambda>(_, p1). then_do (more_keys ?keys p1) (after_keys d obj h))"
    by auto
  let ?c1 = "c + length (render_more ks)"
  let ?vt = "tk l (Suc ?c1) STRING (VStr (name_of v))"
  let ?q = "pst loc cs (Some ?vt) (sc (NL # rest) False l (Suc ?c1 + length (render_word v)))"
  have pv: "parser_next (pst loc cs x' (sc (SP # render_word v @ NL # rest) False l ?c1))
      = Some (Inr (?vt, ?q))"
    using pull_space_word [OF v, of "NL # rest" loc cs x' l ?c1]
    by (simp add: is_name_end_def)
  have mk: "more_keys ?keys ?q = Some (Inr (?keys, ?q))"
    by (rule more_keys_done [of _ ?vt]) (simp_all add: pst_def tk_def)
  have ak: "after_keys d obj h (?keys, ?q) =
      then_do (parser_next ?q) (\<lambda>(_, p3).
        parse_loop d obj (assign_keys h obj ?keys (Prim (t_value ?vt))) p3)"
    by (rule after_keys_value) (simp_all add: pst_def tk_def)
  have "parse_loop d obj h
      (pst loc cs (Some (tk l c0 STRING (VStr (name_of k))))
         (sc (render_more ks @ SP # render_word v @ NL # rest) False l c))
      = then_do (parser_next ?q) (\<lambda>(_, p3).
        parse_loop d obj (assign_keys h obj ?keys (Prim (t_value ?vt))) p3)"
    by (simp only: parse_loop_key [OF kn] al pv then_do_simps prod.case mk ak)
  also have "\<dots> = parse_loop d obj (assign_keys h obj ?keys (Prim (VStr (name_of v))))
        (at_line loc cs (Suc l) rest)"
    by (simp add: pull_newline at_line_def tk_def)
  finally show ?thesis .
qed

lemma parser_next_sets_token:
  "parser_next p = Some (Inr (t, p1)) \<Longrightarrow> token p1 = Some t"
  using parser_next_post [of p] by (simp add: post_def)

text \<open>
  When the line after a block is not one of the block's own, the loop of the block
  returns on it and the loop around it goes on as if it had read that line itself.
\<close>

lemma dedent:
  assumes tok: "token p = Some t" "t_type t = NEWLINE" and st: "stops_at d p"
  shows "then_do (parse_loop (Suc d) a h1 p) (after_block d obj keys b)
       = parse_loop d obj (assign_keys h1 obj keys (Ref b)) p"
proof (cases "parser_next p")
  case None
  then show ?thesis by (simp add: parse_loop_newline [OF tok])
next
  case (Some r)
  show ?thesis
  proof (cases r)
    case (Inl e)
    with Some show ?thesis by (simp add: parse_loop_newline [OF tok])
  next
    case (Inr x)
    obtain nt p1 where x: "x = (nt, p1)" by (cases x)
    with Some Inr have pn: "parser_next p = Some (Inr (nt, p1))" by simp
    note t1 = parser_next_sets_token [OF pn]
    from st pn have shallow: "t_type nt = INDENT \<Longrightarrow> \<exists>n. t_value nt = VNum n \<and> n \<le> d"
      by (simp add: stops_at_def)
    let ?h2 = "assign_keys h1 obj keys (Ref b)"
    have child: "parse_loop (Suc d) a h1 p = Some (Inr (h1, p1))"
      using shallow by (auto simp: parse_loop_newline [OF tok] pn)
    show ?thesis
    proof (cases "t_type nt = INDENT")
      case False
      then show ?thesis
        by (simp add: child after_block_def t1 parse_loop_newline [OF tok, of d] pn)
    next
      case True
      then show ?thesis
        by (simp add: child after_block_def t1 parse_loop_newline [OF tok, of d] pn
            parse_loop_indent [OF t1 True])
    qed
  qed
qed

lemma at_line_token:
  "token (at_line loc cs l rest) = Some (tk l 0 NEWLINE VUndefined)"
  "t_type (tk l c ty v) = ty" "t_value (tk l c ty v) = v"
  by (simp_all add: at_line_def pst_def tk_def)

text \<open>From the start of a line to its first key.\<close>

lemma line_start:
  assumes k: "key_ok k" and r: "r \<noteq> []" "is_name_end (hd r)"
  shows "parse_loop d obj h (at_line loc cs l (replicate (2 * d) SP @ render_word k @ r))
       = parse_loop d obj h
           (pst loc cs (Some (tk l (Suc (2 * d)) STRING (VStr (name_of k))))
              (sc r False l (Suc (2 * d) + length (render_word k))))"
proof -
  from k have wk: "word_ok k" and kn: "name_of k \<noteq> []" by (simp_all add: key_ok_def)
  note nl = parse_loop_newline [OF at_line_token(1) at_line_token(2)]
  show ?thesis
  proof (cases "d = 0")
    case True
    have 0: "parser_next (at_line loc cs l (render_word k @ r))
        = Some (Inr (tk l (Suc 0) STRING (VStr (name_of k)),
            pst loc cs (Some (tk l (Suc 0) STRING (VStr (name_of k))))
              (sc r False l (Suc (length (render_word k))))))"
      using pull_word [OF wk, of r loc cs _ True l 1] r by (simp add: at_line_def)
    show ?thesis
      by (simp add: True nl 0)
  next
    case False
    have hd: "render_word k @ r = [] \<or> hd (render_word k @ r) \<noteq> SP"
      using render_word_hd(2) [OF wk, of r] kn by simp
    have 1: "parser_next (at_line loc cs l (replicate (2 * d) SP @ render_word k @ r))
        = Some (Inr (tk l (Suc 0) INDENT (VNum d),
             pst loc cs (Some (tk l (Suc 0) INDENT (VNum d)))
               (sc (render_word k @ r) False l (Suc (2 * d)))))"
      using pull_indent [OF _ hd, of d loc cs _ l 1] False by (simp add: at_line_def)
    have 2: "parser_next (pst loc cs (Some (tk l (Suc 0) INDENT (VNum d)))
          (sc (render_word k @ r) False l (Suc (2 * d))))
        = Some (Inr (tk l (Suc (2 * d)) STRING (VStr (name_of k)),
            pst loc cs (Some (tk l (Suc (2 * d)) STRING (VStr (name_of k))))
              (sc r False l (Suc (2 * d) + length (render_word k)))))"
      using pull_word [OF wk, of r loc cs _ False l "Suc (2 * d)"] r by simp
    show ?thesis
      using False by (simp add: nl 1 2 at_line_token)
  qed
qed

lemma block_from_key:
  assumes k: "key_ok k" and ks: "list_all key_ok ks"
    and children: "\<And>a h1. parse_loop (Suc d) a h1 (at_line loc cs (Suc l) (body @ rest))
        = parse_loop (Suc d) a (fill a h1) (at_line loc cs (Suc l + n) rest)"
    and st: "stops_at d (at_line loc cs (Suc l + n) rest)"
  shows "parse_loop d obj h
      (pst loc cs (Some (tk l c0 STRING (VStr (name_of k))))
         (sc (render_more ks @ COLON_C # NL # body @ rest) False l c))
    = parse_loop d obj
        (assign_keys (fill (length h) (h @ [new_obj])) obj (name_of k # map name_of ks)
           (Ref (length h)))
        (at_line loc cs (Suc l + n) rest)"
proof -
  let ?keys = "name_of k # map name_of ks"
  from k have kn: "name_of k \<noteq> []" by (simp add: key_ok_def)
  from aliases [OF ks, of "COLON_C # NL # body @ rest" loc cs
      "Some (tk l c0 STRING (VStr (name_of k)))" l c "[name_of k]" "after_keys d obj h"]
  obtain x' where al: "then_do (parser_next (pst loc cs (Some (tk l c0 STRING (VStr (name_of k))))
          (sc (render_more ks @ COLON_C # NL # body @ rest) False l c)))
        (\<lambda>(_, p1). then_do (more_keys [name_of k] p1) (after_keys d obj h))
      = then_do (parser_next (pst loc cs x'
          (sc (COLON_C # NL # body @ rest) False l (c + length (render_more ks)))))
        (\<lambda>(_, p1). then_do (more_keys ?keys p1) (after_keys d obj h))"
    by auto
  let ?c1 = "c + length (render_more ks)"
  let ?ct = "tk l ?c1 COLON VUndefined"
  let ?q = "pst loc cs (Some ?ct) (sc (NL # body @ rest) False l (Suc ?c1))"
  have mk: "more_keys ?keys ?q = Some (Inr (?keys, ?q))"
    by (rule more_keys_done [of _ ?ct]) (simp_all add: pst_def tk_def)
  have ak: "after_keys d obj h (?keys, ?q) =
      then_do (parser_next ?q) (\<lambda>(_, p3).
        then_do (parse_loop (Suc d) (length h) (h @ [new_obj]) p3)
          (after_block d obj ?keys (length h)))"
    by (rule after_keys_colon [of _ ?ct]) (simp_all add: pst_def tk_def)
  have "parse_loop d obj h
      (pst loc cs (Some (tk l c0 STRING (VStr (name_of k))))
         (sc (render_more ks @ COLON_C # NL # body @ rest) False l c))
      = then_do (parser_next ?q) (\<lambda>(_, p3).
        then_do (parse_loop (Suc d) (length h) (h @ [new_obj]) p3)
          (after_block d obj ?keys (length h)))"
    by (simp only: parse_loop_key [OF kn] al pull_colon then_do_simps prod.case mk ak)
  also have "\<dots> = then_do (parse_loop (Suc d) (length h) (h @ [new_obj])
        (at_line loc cs (Suc l) (body @ rest))) (after_block d obj ?keys (length h))"
    by (simp add: pull_newline at_line_def)
  also have "\<dots> = then_do (parse_loop (Suc d) (length h) (fill (length h) (h @ [new_obj]))
        (at_line loc cs (Suc l + n) rest)) (after_block d obj ?keys (length h))"
    by (simp only: children)
  also have "\<dots> = parse_loop d obj
        (assign_keys (fill (length h) (h @ [new_obj])) obj ?keys (Ref (length h)))
        (at_line loc cs (Suc l + n) rest)"
    by (rule dedent [OF at_line_token(1) at_line_token(2) st])
  finally show ?thesis .
qed

lemma render_split:
  "render d e = replicate (2 * d) SP @ render_word (first_key e) @ entry_tail d e"
  by (cases e) (simp_all add: render_entries_def)

lemma entry_tail_hd:
  "entry_tail d e @ r \<noteq> []" "is_name_end (hd (entry_tail d e @ r))"
proof -
  have "entry_tail d e @ r \<noteq> [] \<and> is_name_end (hd (entry_tail d e @ r))"
  proof (cases e)
    case (Leaf k ks v)
    then show ?thesis
      by (cases ks) (simp_all add: render_more_def is_name_end_def)
  next
    case (Block k ks es)
    then show ?thesis
      by (cases ks) (simp_all add: render_more_def is_name_end_def)
  qed
  then show "entry_tail d e @ r \<noteq> []" "is_name_end (hd (entry_tail d e @ r))" by simp_all
qed

lemma entry_ok_first_key: "entry_ok e \<Longrightarrow> key_ok (first_key e)"
  by (cases e) simp_all


lemma follows_mono: "follows d loc cs rest \<Longrightarrow> follows (Suc d) loc cs rest"
  by (fastforce simp: follows_def stops_at_def split: option.splits sum.splits)

lemma follows_entry:
  assumes "entry_ok e" and "d' \<le> d"
  shows "follows d loc cs (render d' e @ r)"
proof -
  let ?k = "first_key e"
  let ?t = "entry_tail d' e @ r"
  from assms(1) have k: "key_ok ?k" by (rule entry_ok_first_key)
  then have wk: "word_ok ?k" and kn: "name_of ?k \<noteq> []" by (simp_all add: key_ok_def)
  have t: "?t = [] \<or> is_name_end (hd ?t)" using entry_tail_hd(2) [of d' e r] by simp
  have shape: "render d' e @ r = replicate (2 * d') SP @ render_word ?k @ ?t"
    by (simp add: render_split)
  have "stops_at d (at_line loc cs l (render d' e @ r))" for l
  proof (cases "d' = 0")
    case True
    have "parser_next (at_line loc cs l (render d' e @ r)) =
        Some (Inr (tk l 1 STRING (VStr (name_of ?k)),
                pst loc cs (Some (tk l 1 STRING (VStr (name_of ?k))))
                  (sc ?t False l (1 + length (render_word ?k)))))"
      unfolding at_line_def shape using True pull_word [OF wk t, of loc cs _ True l 1]
      by simp
    then show ?thesis by (simp add: stops_at_def tk_def)
  next
    case False
    have hd: "render_word ?k @ ?t = [] \<or> hd (render_word ?k @ ?t) \<noteq> SP"
      using render_word_hd(2) [OF wk, of ?t] kn by simp
    have "parser_next (at_line loc cs l (render d' e @ r)) =
        Some (Inr (tk l 1 INDENT (VNum d'),
                pst loc cs (Some (tk l 1 INDENT (VNum d')))
                  (sc (render_word ?k @ ?t) False l (1 + 2 * d'))))"
      unfolding at_line_def shape using False pull_indent [OF _ hd, of d' loc cs _ l 1]
      by simp
    then show ?thesis using assms(2) by (simp add: stops_at_def tk_def)
  qed
  then show ?thesis by (simp add: follows_def)
qed

lemma follows_entries:
  assumes "list_all entry_ok es" and "follows d loc cs rest"
  shows "follows d loc cs (render_entries d es @ rest)"
proof (cases es)
  case Nil
  with assms(2) show ?thesis by (simp add: render_entries_def)
next
  case (Cons e es')
  with assms(1) have "entry_ok e" by simp
  from follows_entry [OF this le_refl, of d loc cs "render_entries d es' @ rest"] Cons
  show ?thesis by (simp add: render_entries_def)
qed

lemma entries_from_keys:
  assumes each: "\<And>e obj h l rest c0 c. e \<in> set es \<Longrightarrow> entry_ok e \<Longrightarrow> follows d loc cs rest \<Longrightarrow>
      parse_loop d obj h
        (pst loc cs (Some (tk l c0 STRING (VStr (name_of (first_key e)))))
           (sc (entry_tail d e @ rest) False l c))
      = parse_loop d obj (build obj h e) (at_line loc cs (Suc l + (nlines e - 1)) rest)"
    and ok: "list_all entry_ok es" and fo: "follows d loc cs rest"
  shows "parse_loop d obj h (at_line loc cs l (render_entries d es @ rest))
       = parse_loop d obj (build_all obj h es) (at_line loc cs (l + total_lines es) rest)"
  using each ok
proof (induction es arbitrary: h l)
  case Nil
  show ?case by (simp add: render_entries_def build_all_def total_lines_def)
next
  case (Cons e es)
  from Cons.prems(2) have e: "entry_ok e" and es: "list_all entry_ok es" by simp_all
  let ?rest = "render_entries d es @ rest"
  have fo': "follows d loc cs ?rest" using follows_entries [OF es fo] .
  have k: "key_ok (first_key e)" using e by (rule entry_ok_first_key)
  have n1: "0 < nlines e" by (cases e) simp_all
  have "parse_loop d obj h (at_line loc cs l (render_entries d (e # es) @ rest))
      = parse_loop d obj h (at_line loc cs l
          (replicate (2 * d) SP @ render_word (first_key e) @ (entry_tail d e @ ?rest)))"
    by (simp add: render_entries_def render_split)
  also have "\<dots> = parse_loop d obj h
      (pst loc cs (Some (tk l (Suc (2 * d)) STRING (VStr (name_of (first_key e)))))
         (sc (entry_tail d e @ ?rest) False l (Suc (2 * d) + length (render_word (first_key e)))))"
    by (rule line_start [OF k entry_tail_hd])
  also have "\<dots> = parse_loop d obj (build obj h e) (at_line loc cs (Suc l + (nlines e - 1)) ?rest)"
    by (rule Cons.prems(1) [OF _ e fo']) simp
  also have "\<dots> = parse_loop d obj (build_all obj (build obj h e) es)
      (at_line loc cs (Suc l + (nlines e - 1) + total_lines es) rest)"
    by (rule Cons.IH [OF _ es]) (rule Cons.prems(1), simp_all)
  finally show ?case
    using n1 by (simp add: build_all_def total_lines_def add.assoc)
qed

lemma entry_from_key:
  assumes "entry_ok e" and "follows d loc cs rest"
  shows "parse_loop d obj h
        (pst loc cs (Some (tk l c0 STRING (VStr (name_of (first_key e)))))
           (sc (entry_tail d e @ rest) False l c))
      = parse_loop d obj (build obj h e) (at_line loc cs (Suc l + (nlines e - 1)) rest)"
  using assms
proof (induction e arbitrary: d obj h l rest c0 c)
  case (Leaf k ks v)
  then show ?case
    using leaf_from_key [of k ks v d obj h loc cs l c0 rest c] by simp
next
  case (Block k ks es)
  from Block.prems(1) have k: "key_ok k" and ks: "list_all key_ok ks"
    and es: "list_all entry_ok es" by simp_all
  note fo = Block.prems(2)
  have children: "parse_loop (Suc d) a h1
        (at_line loc cs (Suc l) (render_entries (Suc d) es @ rest))
      = parse_loop (Suc d) a (build_all a h1 es)
        (at_line loc cs (Suc l + total_lines es) rest)" for a h1
    by (rule entries_from_keys [OF _ es follows_mono [OF fo]]) (rule Block.IH)
  have st: "stops_at d (at_line loc cs (Suc l + total_lines es) rest)"
    using fo by (simp add: follows_def)
  from block_from_key [OF k ks, of d loc cs l "render_entries (Suc d) es" rest
      "\<lambda>a h1. build_all a h1 es" "total_lines es" obj h c0 c, OF children st]
  show ?case by (simp add: build_all_def total_lines_def)
qed

lemma entries_parse:
  assumes "list_all entry_ok es" and "follows d loc cs rest"
  shows "parse_loop d obj h (at_line loc cs l (render_entries d es @ rest))
       = parse_loop d obj (build_all obj h es) (at_line loc cs (l + total_lines es) rest)"
  by (rule entries_from_keys [OF _ assms]) (rule entry_from_key)

text \<open>The whole text, from the priming \<^verbatim>\<open>next()\<close> on.\<close>

lemma parse_blocks_then:
  assumes "list_all entry_ok (e # es)" and "follows 0 loc cs rest"
  shows "parse_loop 0 0 [new_obj]
           (pst loc cs (Some (tk 1 0 STRING (VStr (name_of (first_key e)))))
              (sc (entry_tail 0 e @ render_entries 0 es @ rest) False 1
                 (length (render_word (first_key e)))))
       = parse_loop 0 0 (build_all 0 [new_obj] (e # es))
           (at_line loc cs (Suc (total_lines (e # es))) rest)"
proof -
  from assms(1) have e: "entry_ok e" and es: "list_all entry_ok es" by simp_all
  have n1: "0 < nlines e" by (cases e) simp_all
  have "parse_loop 0 0 [new_obj]
           (pst loc cs (Some (tk 1 0 STRING (VStr (name_of (first_key e)))))
              (sc (entry_tail 0 e @ render_entries 0 es @ rest) False 1
                 (length (render_word (first_key e)))))
      = parse_loop 0 0 (build 0 [new_obj] e)
          (at_line loc cs (Suc 1 + (nlines e - 1)) (render_entries 0 es @ rest))"
    by (rule entry_from_key [OF e follows_entries [OF es assms(2)]])
  also have "\<dots> = parse_loop 0 0 (build_all 0 (build 0 [new_obj] e) es)
          (at_line loc cs (Suc 1 + (nlines e - 1) + total_lines es) rest)"
    by (rule entries_parse [OF es assms(2)])
  finally show ?thesis using n1 by (simp add: build_all_def total_lines_def add.assoc)
qed


lemma pull_odd_indent:
  assumes "odd n" and "r = [] \<or> hd r \<noteq> SP"
  shows "parser_next (at_line loc cs l (replicate n SP @ r))
       = Some (Inl (TypeError (js ''Invalid number of spaces'')))"
  unfolding at_line_def by (rule parser_next_throw [OF scan_odd_indent [OF assms]])

lemma follows_odd_indent:
  assumes "odd n" and "r = [] \<or> hd r \<noteq> SP"
  shows "follows d loc cs (replicate n SP @ r)"
  by (simp add: follows_def stops_at_def pull_odd_indent [OF assms])

lemma parse_loop_odd_indent:
  assumes "odd n" and "r = [] \<or> hd r \<noteq> SP"
  shows "parse_loop d obj h (at_line loc cs l (replicate n SP @ r))
       = Some (Inl (TypeError (js ''Invalid number of spaces'')))"
  by (subst parse_loop_newline [OF at_line_token(1) at_line_token(2)])
     (simp add: pull_odd_indent [OF assms])




lemma new_Parser_pst: "new_Parser text loc = pst (label loc) [] None (sc text False 1 0)"
  by (simp add: new_Parser_def pst_def sc_def fresh_def tokenise_def label_def)

lemma render_word_not_BOM:
  assumes "key_ok k"
  shows "\<exists>a w. render_word k @ r = a # w \<and> a \<noteq> BOM"
proof (cases k)
  case (Bare w)
  with assms obtain a w' where "w = a # w'" "is_name_start a"
    by (cases w) (auto simp: key_ok_def bare_ok_def)
  moreover from this have "a \<noteq> BOM" by (auto simp: is_name_start_def)
  ultimately show ?thesis using Bare by simp
next
  case (Quoted w)
  then show ?thesis by simp
qed

lemma parse_blocks_then_rest:
  assumes ok: "list_all entry_ok (e # es)" and fo: "follows 0 (label loc) [] rest"
  shows "parse (render_entries 0 (e # es) @ rest) loc =
     then_do (parse_loop 0 0 (build_all 0 [new_obj] (e # es))
                (at_line (label loc) [] (Suc (total_lines (e # es))) rest))
       (\<lambda>(h, _). Some (Inr (h, 0)))"
proof -
  let ?k = "first_key e"
  let ?t = "entry_tail 0 e @ render_entries 0 es @ rest"
  from ok have e: "entry_ok e" by simp
  then have k: "key_ok ?k" by (rule entry_ok_first_key)
  then have wk: "word_ok ?k" by (simp add: key_ok_def)
  have shape: "render_entries 0 (e # es) @ rest = render_word ?k @ ?t"
    by (simp add: render_entries_def render_split)
  have strip: "stripBOM (render_word ?k @ ?t) = render_word ?k @ ?t"
    using render_word_not_BOM [OF k, of ?t] by (auto simp: stripBOM_def)
  have t: "?t = [] \<or> is_name_end (hd ?t)"
    using entry_tail_hd(2) [of 0 e "render_entries 0 es @ rest"] by simp
  show ?thesis
    unfolding parse_def shape strip Let_def new_Parser_pst
    using parse_blocks_then [OF ok fo] by (simp add: pull_word [OF wk t])
qed


lemma parse_blocks_odd_indent:
  assumes "list_all entry_ok es" and "es \<noteq> []" and "odd n" and "r = [] \<or> hd r \<noteq> SP"
  shows "parse (render_entries 0 es @ replicate n SP @ r) loc
       = Some (Inl (TypeError (js ''Invalid number of spaces'')))"
proof -
  from assms(2) obtain e es' where es: "es = e # es'" by (cases es) auto
  from parse_blocks_then_rest [OF assms(1) [unfolded es] follows_odd_indent [OF assms(3,4)], of loc]
  show ?thesis by (simp add: es parse_loop_odd_indent [OF assms(3,4)])
qed

















lemma step_odd_indent:
  assumes "odd n" and "r = [] \<or> hd r \<noteq> SP"
  shows "tokenise_step \<lparr>input = replicate n SP @ r, lastNewline = True, line = l, col = c\<rparr>
       = Some (Inl (TypeError (js ''Invalid number of spaces'')))"
proof -
  obtain m where n: "n = Suc m" using assms(1) by (cases n) auto
  have tw: "takeWhile (\<lambda>c. c = SP) (replicate n SP @ r) = replicate n SP"
    using assms(2) by (rule takeWhile_spaces)
  show ?thesis
    using assms(1) tw
    by (simp add: tokenise_step_def char_at_def advance_def buildToken_def Let_def n)
qed


section \<open>The claims\<close>




text \<open>
  C2. The end-to-end example: the comment line \<^verbatim>\<open># yarn lockfile v1\<close>, a blank line, the
  block \<^verbatim>\<open>foo@^1.0.0:\<close> with \<^verbatim>\<open>version\<close>, \<^verbatim>\<open>resolved\<close> and a nested \<^verbatim>\<open>dependencies:\<close>
  block holding \<^verbatim>\<open>bar\<close>. \<^verbatim>\<open>parse\<close> returns the object at address 0, whose one key
  \<^verbatim>\<open>foo@^1.0.0\<close> refers to the object with the three properties, whose \<^verbatim>\<open>dependencies\<close>
  refers to the object \<^verbatim>\<open>{bar: "^2.0.0"}\<close>.
\<close>

theorem parse_end_to_end_example:
  \<open>parse (js ''# yarn lockfile v1\<newline>\<newline>foo@^1.0.0:\<newline>  version "1.0.0"\<newline>  resolved "https://registry.example/foo-1.0.0.tgz#abcdef"\<newline>  dependencies:\<newline>    bar "^2.0.0"\<newline>'') None =
   Some (Inr ([\<lparr>props = [(js ''foo@^1.0.0'', Ref 1)], proto = None\<rparr>,
               \<lparr>props = [(js ''version'', Prim (VStr (js ''1.0.0''))),
                         (js ''resolved'',
                            Prim (VStr (js ''https://registry.example/foo-1.0.0.tgz#abcdef''))),
                         (js ''dependencies'', Ref 2)],
                proto = None\<rparr>,
               \<lparr>props = [(js ''bar'', Prim (VStr (js ''^2.0.0'')))], proto = None\<rparr>],
              0))\<close>
  by code_simp



text \<open>
  C4, as amended. A scanner that stands right after a newline, at a run of spaces of odd
  length, throws "Invalid number of spaces" on the next pull; and \<^verbatim>\<open>parse\<close> fails with
  that \<^verbatim>\<open>TypeError\<close> on every text made of one or more well-formed entries followed by a
  line that starts with such a run. The scanner is lazy: \<^verbatim>\<open>parse\<close> meets the run only if
  it pulls tokens that far.
\<close>

theorem odd_indentation_after_blocks:
  assumes "odd n" and "r = [] \<or> hd r \<noteq> SP"
  shows "tokenise_step \<lparr>input = replicate n SP @ r, lastNewline = True, line = l, col = c\<rparr>
           = Some (Inl (TypeError (js ''Invalid number of spaces'')))
       \<and> (list_all entry_ok es \<and> es \<noteq> [] \<longrightarrow>
            parse (render_entries 0 es @ replicate n SP @ r) loc
              = Some (Inl (TypeError (js ''Invalid number of spaces''))))"
  using step_odd_indent [OF assms] parse_blocks_odd_indent [OF _ _ assms] by simp

theorem odd_indentation_after_blocks_witness:
  \<open>odd (1::nat)
   \<and> list_all entry_ok [Leaf (Bare (js ''a'')) [] (Quoted (js ''1''))]
   \<and> tokenise_step \<lparr>input = js '' b "2"\<newline>'', lastNewline = True, line = 2, col = 0\<rparr>
       = Some (Inl (TypeError (js ''Invalid number of spaces'')))
   \<and> parse (js ''a "1"\<newline> b "2"\<newline>'') None
       = Some (Inl (TypeError (js ''Invalid number of spaces'')))\<close>
proof -
  let ?es = "[Leaf (Bare (js ''a'')) [] (Quoted (js ''1''))]"
  let ?r = \<open>js ''b "2"\<newline>''\<close>
  have ok: "list_all entry_ok ?es" by code_simp
  have r: "?r = [] \<or> hd ?r \<noteq> SP" by code_simp
  have inp: \<open>replicate 1 SP @ ?r = js '' b "2"\<newline>''\<close> by code_simp
  have src: \<open>render_entries 0 ?es @ js '' b "2"\<newline>'' = js ''a "1"\<newline> b "2"\<newline>''\<close>
    by code_simp
  from odd_indentation_after_blocks [OF _ r, of 1 2 0 ?es None] ok
  have "tokenise_step \<lparr>input = replicate 1 SP @ ?r, lastNewline = True, line = 2, col = 0\<rparr>
           = Some (Inl (TypeError (js ''Invalid number of spaces'')))
       \<and> parse (render_entries 0 ?es @ replicate 1 SP @ ?r) None
              = Some (Inl (TypeError (js ''Invalid number of spaces'')))"
    by simp
  then show ?thesis unfolding inp src using ok by simp
qed

text \<open>
  C4 as stated fails on the text \<^verbatim>\<open>a "1"\<close>, \<^verbatim>\<open>  b "2"\<close>, \<^verbatim>\<open> c "3"\<close>: the third line starts
  with one space, yet \<^verbatim>\<open>parse\<close> returns \<^verbatim>\<open>{a: "1"}\<close>. The depth-0 loop leaves on the
  indentation of the second line, and the third line is never scanned.
\<close>

theorem odd_indentation_never_scanned:
  \<open>parse (js ''a "1"\<newline>  b "2"\<newline> c "3"\<newline>'') None
     = Some (Inr ([\<lparr>props = [(js ''a'', Prim (VStr (js ''1'')))], proto = None\<rparr>], 0))\<close>
  by code_simp




text \<open>
  C6. The scanner ends a quoted literal at the first double quote that is not preceded
  by a backslash which itself has no backslash before it: it looks two characters back
  and no further. On the literal \<^verbatim>\<open>"a\"b"\<close> it captures all six characters and yields the
  string \<^verbatim>\<open>a"b\<close>. On the literal made of a quote, \<^verbatim>\<open>a\<close>, three backslashes, a quote, \<^verbatim>\<open>b\<close>
  and a quote, where the quote in the middle is escaped, it stops at that quote: it
  captures six of the eight characters, \<^verbatim>\<open>JSON.parse\<close> rejects them, and the token is
  \<open>INVALID\<close>, with \<^verbatim>\<open>b"\<close> left to scan; \<^verbatim>\<open>JSON.parse\<close> accepts the eight characters, as the
  string of \<^verbatim>\<open>a\<close>, a backslash, a quote and \<^verbatim>\<open>b\<close>.
\<close>

theorem quoted_literal_two_characters_back:
  "tokenise_step \<lparr>input = DQ # js ''a'' @ [BS, DQ] @ js ''b'' @ [DQ],
                  lastNewline = False, line = 1, col = 0\<rparr>
     = Some (Inr ([\<lparr>t_line = 1, t_col = 0, t_type = STRING,
                     t_value = VStr (js ''a'' @ [DQ] @ js ''b'')\<rparr>],
                  \<lparr>input = [], lastNewline = False, line = 1, col = 6\<rparr>))
   \<and> tokenise_step \<lparr>input = DQ # js ''a'' @ [BS, BS, BS, DQ] @ js ''b'' @ [DQ],
                    lastNewline = False, line = 1, col = 0\<rparr>
     = Some (Inr ([\<lparr>t_line = 1, t_col = 0, t_type = INVALID, t_value = VUndefined\<rparr>],
                  \<lparr>input = js ''b'' @ [DQ], lastNewline = False, line = 1, col = 6\<rparr>))
   \<and> json_parse (DQ # js ''a'' @ [BS, BS, BS, DQ] @ js ''b'' @ [DQ])
     = Some (js ''a'' @ [BS, DQ] @ js ''b'')"
  by code_simp





text \<open>
  C9. Once the pulls on the scanner of any text have delivered \<open>EOF\<close>, one more
  \<^verbatim>\<open>next()\<close> throws "No more tokens"; and \<^verbatim>\<open>parse\<close> never fails with that error (nor with
  any other \<^verbatim>\<open>Error\<close>), on any text and any label.
\<close>

theorem token_stream_exhausted_unreachable:
  "(\<forall>inp ts g p. yields (tokenise inp) ts g \<and> ts \<noteq> [] \<and> t_type (last ts) = EOF
       \<longrightarrow> parser_next (p\<lparr>tokens := g\<rparr>) = Some (Inl (Error (js ''No more tokens''))))
   \<and> (\<forall>str loc m. parse str loc \<noteq> Some (Inl (Error m)))"
proof (intro conjI allI impI)
  fix inp ts g and p :: parser
  assume a: "yields (tokenise inp) ts g \<and> ts \<noteq> [] \<and> t_type (last ts) = EOF"
  have "reachable (tokenise inp)" by (simp add: reachable_def tokenise_def)
  with a yields_reachable [of "tokenise inp" ts g] have "finished g" "pending g = []" by auto
  then show "parser_next (p\<lparr>tokens := g\<rparr>) = Some (Inl (Error (js ''No more tokens'')))"
    by (rule parser_next_exhausted)
next
  fix str loc m
  show "parse str loc \<noteq> Some (Inl (Error m))"
    using parse_post [of str loc] by (auto simp: fails_well_def is_Error_def)
qed

theorem token_stream_exhausted_witness:
  "yields (tokenise []) [\<lparr>t_line = 1, t_col = 0, t_type = EOF, t_value = VUndefined\<rparr>]
      ((tokenise [])\<lparr>finished := True\<rparr>)
   \<and> parser_next ((new_Parser [] None)\<lparr>tokens := (tokenise [])\<lparr>finished := True\<rparr>\<rparr>)
       = Some (Inl (Error (js ''No more tokens'')))
   \<and> parse (js ''a 1'') None \<noteq> Some (Inl (Error (js ''No more tokens'')))"
proof -
  let ?t = "\<lparr>t_line = 1, t_col = 0, t_type = EOF, t_value = VUndefined\<rparr>"
  have "gen_next (tokenise []) = Some (Inr (Some ?t, (tokenise [])\<lparr>finished := True\<rparr>))"
    by code_simp
  then have y: "yields (tokenise []) [?t] ((tokenise [])\<lparr>finished := True\<rparr>)"
    by (rule yields_one)
  from token_stream_exhausted_unreachable
  have 1: "yields (tokenise inp) ts g \<and> ts \<noteq> [] \<and> t_type (last ts) = EOF
      \<Longrightarrow> parser_next (p\<lparr>tokens := g\<rparr>) = Some (Inl (Error (js ''No more tokens'')))"
    and 2: "parse str loc \<noteq> Some (Inl (Error m))" for inp ts g p str loc m
    by blast+
  from y 1 [of "[]" "[?t]" "(tokenise [])\<lparr>finished := True\<rparr>" "new_Parser [] None"] 2
  show ?thesis by simp
qed

text \<open>
  C10. On the empty text, and on a text that is only a byte-order mark, the scanner's
  first token is \<open>EOF\<close> (at line 1, column 0), and \<^verbatim>\<open>parse\<close> returns the empty object,
  whatever the label.
\<close>

theorem parse_empty_input:
  "parse [] loc = Some (Inr ([new_obj], 0))
   \<and> parse [BOM] loc = Some (Inr ([new_obj], 0))
   \<and> gen_next (tokenise (stripBOM [BOM])) =
       Some (Inr (Some \<lparr>t_line = 1, t_col = 0, t_type = EOF, t_value = VUndefined\<rparr>,
                  (tokenise [])\<lparr>finished := True\<rparr>))
   \<and> props new_obj = []"
  by code_simp

end
